theory Spec2Isabelle
  imports Main "HOL-Library.Multiset" "HOL-Library.Monad_Syntax"
begin

section \<open>Comparators\<close>

text \<open>
  Every function of \<^verbatim>\<open>sorting.py\<close> takes a comparator \<^verbatim>\<open>cmp\<close>: a Python
  function of two elements returning an integer, read as \<open>-1\<close> (less), \<open>1\<close> (greater),
  \<open>0\<close> (equal).  Python integers are unbounded, hence \<^typ>\<open>int\<close>.
\<close>

type_synonym 'a comparator = "'a \<Rightarrow> 'a \<Rightarrow> int"

definition cmp_standard :: "'a::linorder comparator" where
  "cmp_standard a b = (if a < b then -1 else if b < a then 1 else 0)"

definition cmp_reverse :: "'a::linorder comparator" where
  "cmp_reverse a b = (if a < b then 1 else if b < a then -1 else 0)"

definition cmp_last_digit :: "int comparator" where
  "cmp_last_digit a b = cmp_standard (a mod 10) (b mod 10)"

section \<open>The linear merge\<close>

text \<open>
  The state of the \<^verbatim>\<open>while\<close> loop of \<^verbatim>\<open>_merged\<close> is
  \<open>(new_list, counter1, counter2)\<close>.  The loop body is three \<^verbatim>\<open>if\<close> statements in
  sequence (not an \<^verbatim>\<open>elif\<close> chain), each reading the counters as the previous one left
  them.
\<close>

type_synonym 'a merge_state = "'a list \<times> nat \<times> nat"

definition merged_body :: "'a comparator \<Rightarrow> 'a list \<Rightarrow> 'a list \<Rightarrow> 'a merge_state \<Rightarrow> 'a merge_state" where
  "merged_body cmp xs ys s =
     (let number = cmp (xs ! fst (snd s)) (ys ! snd (snd s));
          s1 = (case s of (new_list, counter1, counter2) \<Rightarrow>
                  if number = -1 then (new_list @ [xs ! counter1], counter1 + 1, counter2) else s);
          s2 = (case s1 of (new_list, counter1, counter2) \<Rightarrow>
                  if number = 1 then (new_list @ [ys ! counter2], counter1, counter2 + 1) else s1);
          s3 = (case s2 of (new_list, counter1, counter2) \<Rightarrow>
                  if number = 0
                  then ((new_list @ [xs ! counter1]) @ [ys ! counter2], counter1 + 1, counter2 + 1)
                  else s2)
      in s3)"

text \<open>
  The loop may run forever (when no branch fires, no counter moves), so it is a partial
  function: \<open>None\<close> is "does not return".
\<close>

partial_function (option) merged_loop ::
  "'a comparator \<Rightarrow> 'a list \<Rightarrow> 'a list \<Rightarrow> 'a merge_state \<Rightarrow> 'a merge_state option" where
  [code]: "merged_loop cmp xs ys s =
     (if fst (snd s) < length xs \<and> snd (snd s) < length ys
      then merged_loop cmp xs ys (merged_body cmp xs ys s)
      else Some s)"

definition merged :: "'a comparator \<Rightarrow> 'a list \<Rightarrow> 'a list \<Rightarrow> 'a list option" where
  "merged cmp xs ys =
     (case merged_loop cmp xs ys ([], 0, 0) of
        None \<Rightarrow> None
      | Some (new_list, counter1, counter2) \<Rightarrow>
          Some ((new_list @ drop counter1 xs) @ drop counter2 ys))"

section \<open>Merge sort\<close>

text \<open>
  \<^verbatim>\<open>copy.deepcopy(xs)\<close> yields a list equal to \<open>xs\<close>; as a value it is \<open>xs\<close> (the
  object store further down models the copy as a new object).  \<open>split_left\<close> and
  \<open>split_right\<close> are \<^verbatim>\<open>xs2[:mid]\<close> and \<^verbatim>\<open>xs2[mid:]\<close> with
  \<^verbatim>\<open>mid = len(xs2) // 2\<close>.  A call returns \<open>None\<close> when one of its merges does not
  return.  Here and below the call stack is taken to be unbounded: Python's recursion limit
  is not part of the model.
\<close>

definition split_left :: "'a list \<Rightarrow> 'a list" where
  "split_left xs2 = take (length xs2 div 2) xs2"

definition split_right :: "'a list \<Rightarrow> 'a list" where
  "split_right xs2 = drop (length xs2 div 2) xs2"

function merge_sorted :: "'a comparator \<Rightarrow> 'a list \<Rightarrow> 'a list option" where
  "merge_sorted cmp xs =
     (if length xs \<le> 1 then Some xs
      else
        (case merge_sorted cmp (split_left xs) of
           None \<Rightarrow> None
         | Some lmerge \<Rightarrow>
            (case merge_sorted cmp (split_right xs) of
               None \<Rightarrow> None
             | Some rmerge \<Rightarrow> merged cmp lmerge rmerge)))"
  by pat_completeness auto
termination
  by (relation "measure (\<lambda>(cmp, xs). length xs)") (auto simp: split_left_def split_right_def)

section \<open>Quicksort, copy-based\<close>

text \<open>
  The three buckets are filled by one forward scan; the body of the \<^verbatim>\<open>for\<close> loop is
  again three \<^verbatim>\<open>if\<close> statements in sequence.
\<close>

record 'a buckets =
  less_than_pivot :: "'a list"
  greater_than_pivot :: "'a list"
  equal_to_pivot :: "'a list"

definition bucket_step :: "'a comparator \<Rightarrow> 'a \<Rightarrow> 'a buckets \<Rightarrow> 'a \<Rightarrow> 'a buckets" where
  "bucket_step cmp pivot b items =
     (let comparison = cmp items pivot;
          b1 = (if comparison = -1
                then b\<lparr>less_than_pivot := less_than_pivot b @ [items]\<rparr> else b);
          b2 = (if comparison = 1
                then b1\<lparr>greater_than_pivot := greater_than_pivot b1 @ [items]\<rparr> else b1);
          b3 = (if comparison = 0
                then b2\<lparr>equal_to_pivot := equal_to_pivot b2 @ [items]\<rparr> else b2)
      in b3)"

definition fill_buckets :: "'a comparator \<Rightarrow> 'a \<Rightarrow> 'a list \<Rightarrow> 'a buckets" where
  "fill_buckets cmp pivot xs2 =
     foldl (bucket_step cmp pivot)
       \<lparr>less_than_pivot = [], greater_than_pivot = [], equal_to_pivot = []\<rparr> xs2"

text \<open>
  \<^verbatim>\<open>random.choice(xs2)\<close> returns the element at a random index of \<open>xs2\<close>.  The source
  of randomness is a parameter: \<open>rnd k\<close> is the raw outcome of the \<open>k\<close>-th draw of the run,
  reduced to an index of the list at hand, and the number of draws made so far is threaded
  through the recursion.  Every run of the program is the run for some \<open>rnd\<close>.  The
  recursion need not end (the pivot may land in its own "less" bucket under a comparator
  that breaks the contract), so the function is partial: \<open>None\<close> is "does not return".
\<close>

definition random_choice :: "(nat \<Rightarrow> nat) \<Rightarrow> nat \<Rightarrow> 'a list \<Rightarrow> 'a" where
  "random_choice rnd k xs2 = xs2 ! (rnd k mod length xs2)"

partial_function (option) quick_sorted ::
  "(nat \<Rightarrow> nat) \<Rightarrow> 'a comparator \<Rightarrow> 'a list \<Rightarrow> nat \<Rightarrow> ('a list \<times> nat) option" where
  [code]: "quick_sorted rnd cmp xs k =
     (if length xs \<le> 1 then Some (xs, k)
      else
        (let pivot = random_choice rnd k xs;
             b = fill_buckets cmp pivot xs
         in do {
              (less', k1) \<leftarrow> quick_sorted rnd cmp (less_than_pivot b) (Suc k);
              (greater', k2) \<leftarrow> quick_sorted rnd cmp (greater_than_pivot b) k1;
              Some ((less' @ equal_to_pivot b) @ greater', k2)
            }))"

section \<open>Quicksort, in place\<close>

text \<open>
  The array is passed through the calls and returned updated.  Indices are Python
  integers; \<open>lo - 1\<close>, \<open>p - 1\<close> and \<open>len(xs) - 1\<close> can be \<open>-1\<close>.  A subscript out of
  range raises \<^verbatim>\<open>IndexError\<close>, a negative one counts from the end, and arithmetic on
  \<^verbatim>\<open>None\<close> raises \<^verbatim>\<open>TypeError\<close>.
\<close>

datatype error = IndexError | TypeError

definition bind_err :: "error + 'a \<Rightarrow> ('a \<Rightarrow> error + 'b) \<Rightarrow> error + 'b" where
  "bind_err m f = (case m of Inl e \<Rightarrow> Inl e | Inr v \<Rightarrow> f v)"

definition subscript :: "'a list \<Rightarrow> int \<Rightarrow> error + nat" where
  "subscript array i =
     (if 0 \<le> i \<and> i < int (length array) then Inr (nat i)
      else if i < 0 \<and> 0 \<le> i + int (length array) then Inr (nat (i + int (length array)))
      else Inl IndexError)"

definition getitem :: "'a list \<Rightarrow> int \<Rightarrow> error + 'a" where
  "getitem array i = bind_err (subscript array i) (\<lambda>n. Inr (array ! n))"

definition setitem :: "'a list \<Rightarrow> int \<Rightarrow> 'a \<Rightarrow> error + 'a list" where
  "setitem array i v = bind_err (subscript array i) (\<lambda>n. Inr (array[n := v]))"

text \<open>\<^verbatim>\<open>temp = array[i]; array[i] = array[j]; array[j] = temp\<close>\<close>

definition exchange :: "'a list \<Rightarrow> int \<Rightarrow> int \<Rightarrow> error + 'a list" where
  "exchange array i j =
     bind_err (getitem array i) (\<lambda>temp.
     bind_err (getitem array j) (\<lambda>v.
     bind_err (setitem array i v) (\<lambda>array1.
     setitem array1 j temp)))"

text \<open>
  One pass through the body of the \<^verbatim>\<open>for j in range(lo, hi)\<close> loop of
  \<^verbatim>\<open>_partition\<close>.  In the source the final exchange with \<open>array[hi]\<close> and the
  \<^verbatim>\<open>return i + 1\<close> are indented to the level of the two \<^verbatim>\<open>if\<close> statements, that is,
  they are the last statements of the loop body: every pass ends in the \<^verbatim>\<open>return\<close>.
\<close>

definition partition_body ::
  "'a comparator \<Rightarrow> int \<Rightarrow> 'a \<Rightarrow> int \<Rightarrow> 'a list \<times> int \<Rightarrow> error + 'a list \<times> int" where
  "partition_body cmp hi pivot j s =
     bind_err (getitem (fst s) j) (\<lambda>aj.
     let comparison = cmp aj pivot in
     bind_err (if comparison = -1
               then bind_err (exchange (fst s) (snd s + 1) j) (\<lambda>array1. Inr (array1, snd s + 1))
               else Inr s) (\<lambda>s1.
     bind_err (if comparison = 0
               then bind_err (exchange (fst s1) (snd s1 + 1) j) (\<lambda>array2. Inr (array2, snd s1 + 1))
               else Inr s1) (\<lambda>s2.
     bind_err (exchange (fst s2) (snd s2 + 1) hi) (\<lambda>array3.
     Inr (array3, snd s2 + 1)))))"

text \<open>
  \<^verbatim>\<open>_partition\<close> returns the array and the value of its \<^verbatim>\<open>return\<close>: \<open>Some (i + 1)\<close>
  from the first pass of the loop, or \<open>None\<close> (Python's \<^verbatim>\<open>None\<close>) when the range is empty
  and the function falls off its end.
\<close>

definition partition :: "'a comparator \<Rightarrow> 'a list \<Rightarrow> int \<Rightarrow> int \<Rightarrow> error + 'a list \<times> int option" where
  "partition cmp array lo hi =
     bind_err (getitem array hi) (\<lambda>pivot.
     let i = lo - 1 in
     case [lo..hi - 1] of
       [] \<Rightarrow> Inr (array, None)
     | j # _ \<Rightarrow> bind_err (partition_body cmp hi pivot j (array, i)) (\<lambda>(array1, p). Inr (array1, Some p)))"

function quicksort :: "'a comparator \<Rightarrow> 'a list \<Rightarrow> int \<Rightarrow> int \<Rightarrow> error + 'a list" where
  "quicksort cmp array lo hi =
     (if lo < hi then
        (case partition cmp array lo hi of
           Inl e \<Rightarrow> Inl e
         | Inr (array1, None) \<Rightarrow> Inl TypeError
         | Inr (array1, Some p) \<Rightarrow>
            (case quicksort cmp array1 lo (p - 1) of
               Inl e \<Rightarrow> Inl e
             | Inr array2 \<Rightarrow> quicksort cmp array2 (p + 1) hi))
      else Inr array)"
  by pat_completeness auto
termination
proof (relation "measure (\<lambda>(cmp, array, lo, hi). nat (hi - lo))", goal_cases)
  case 1
  show ?case by simp
next
  case (2 cmp array lo hi r array1 po p)
  from \<open>lo < hi\<close> have "[lo..hi - 1] = lo # [lo + 1..hi - 1]"
    by (simp add: upto_rec1)
  with 2 have "p = lo \<or> p = lo + 1"
    by (auto simp: partition_def partition_body_def bind_err_def Let_def
             split: sum.splits if_splits)
  with \<open>lo < hi\<close> show ?case by auto
next
  case (3 cmp array lo hi r array1 po p array2)
  from \<open>lo < hi\<close> have "[lo..hi - 1] = lo # [lo + 1..hi - 1]"
    by (simp add: upto_rec1)
  with 3 have "p = lo \<or> p = lo + 1"
    by (auto simp: partition_def partition_body_def bind_err_def Let_def
             split: sum.splits if_splits)
  with \<open>lo < hi\<close> show ?case by auto
qed

definition quick_sort :: "'a comparator \<Rightarrow> 'a list \<Rightarrow> error + 'a list" where
  "quick_sort cmp xs = quicksort cmp xs 0 (int (length xs) - 1)"

declare merge_sorted.simps [simp del]

declare quicksort.simps [simp del]

section \<open>The same functions over an object store\<close>

text \<open>
  Whether a call changes its argument, and whether what it returns is the argument or a new
  list, is a question about Python objects.  For it the functions are modelled a second time
  with lists held in a store: a reference is a position in the store, every list display,
  slice, \<^verbatim>\<open>+\<close> and \<^verbatim>\<open>copy.deepcopy\<close> makes a new object at the end of the
  store, \<^verbatim>\<open>append\<close> and item assignment change the object they are applied to.  The
  elements are values (\<^verbatim>\<open>deepcopy\<close> of a list of numbers or tuples copies the list).
\<close>

type_synonym 'a heap = "'a list list"
type_synonym ref = nat

definition new_object :: "'a heap \<Rightarrow> 'a list \<Rightarrow> 'a heap \<times> ref" where
  "new_object h v = (h @ [v], length h)"

text \<open>\<^verbatim>\<open>r.append(x)\<close>\<close>

definition append_h :: "'a heap \<Rightarrow> ref \<Rightarrow> 'a \<Rightarrow> 'a heap" where
  "append_h h r x = h[r := h ! r @ [x]]"

text \<open>
  \<^verbatim>\<open>_merged\<close>: the loop state is the store and the two counters; \<open>new_list\<close> is the
  reference made by \<^verbatim>\<open>new_list = []\<close>.
\<close>

type_synonym 'a merge_heap_state = "'a heap \<times> nat \<times> nat"

definition merged_body_h ::
  "'a comparator \<Rightarrow> ref \<Rightarrow> ref \<Rightarrow> ref \<Rightarrow> 'a merge_heap_state \<Rightarrow> 'a merge_heap_state" where
  "merged_body_h cmp xs ys new_list s =
     (let number = cmp (fst s ! xs ! fst (snd s)) (fst s ! ys ! snd (snd s));
          s1 = (case s of (h, counter1, counter2) \<Rightarrow>
                  if number = -1
                  then (append_h h new_list (h ! xs ! counter1), counter1 + 1, counter2) else s);
          s2 = (case s1 of (h, counter1, counter2) \<Rightarrow>
                  if number = 1
                  then (append_h h new_list (h ! ys ! counter2), counter1, counter2 + 1) else s1);
          s3 = (case s2 of (h, counter1, counter2) \<Rightarrow>
                  if number = 0
                  then (let h1 = append_h h new_list (h ! xs ! counter1)
                        in (append_h h1 new_list (h1 ! ys ! counter2), counter1 + 1, counter2 + 1))
                  else s2)
      in s3)"

partial_function (option) merged_loop_h ::
  "'a comparator \<Rightarrow> ref \<Rightarrow> ref \<Rightarrow> ref \<Rightarrow> 'a merge_heap_state \<Rightarrow> 'a merge_heap_state option" where
  [code]: "merged_loop_h cmp xs ys new_list s =
     (if fst (snd s) < length (fst s ! xs) \<and> snd (snd s) < length (fst s ! ys)
      then merged_loop_h cmp xs ys new_list (merged_body_h cmp xs ys new_list s)
      else Some s)"

text \<open>
  After the loop, \<^verbatim>\<open>new_list + xs[counter1:] + ys[counter2:]\<close> makes four objects: the
  two slices and the two sums; the last one is returned.
\<close>

definition merged_h :: "'a comparator \<Rightarrow> 'a heap \<Rightarrow> ref \<Rightarrow> ref \<Rightarrow> ('a heap \<times> ref) option" where
  "merged_h cmp h xs ys =
     (let (h0, new_list) = new_object h [] in
      case merged_loop_h cmp xs ys new_list (h0, 0, 0) of
        None \<Rightarrow> None
      | Some (h1, counter1, counter2) \<Rightarrow>
         (let (h2, tail1) = new_object h1 (drop counter1 (h1 ! xs));
              (h3, sum1) = new_object h2 (h2 ! new_list @ h2 ! tail1);
              (h4, tail2) = new_object h3 (drop counter2 (h3 ! ys))
          in Some (new_object h4 (h4 ! sum1 @ h4 ! tail2))))"

partial_function (option) merge_sorted_h ::
  "'a comparator \<Rightarrow> 'a heap \<Rightarrow> ref \<Rightarrow> ('a heap \<times> ref) option" where
  [code]: "merge_sorted_h cmp h xs =
     (let (h1, xs2) = new_object h (h ! xs) in
      if length (h1 ! xs2) \<le> 1 then Some (h1, xs2)
      else
        (let mid = length (h1 ! xs2) div 2;
             (h2, left) = new_object h1 (take mid (h1 ! xs2));
             (h3, right) = new_object h2 (drop mid (h2 ! xs2))
         in do {
              (h4, lmerge) \<leftarrow> merge_sorted_h cmp h3 left;
              (h5, rmerge) \<leftarrow> merge_sorted_h cmp h4 right;
              merged_h cmp h5 lmerge rmerge
            }))"

text \<open>
  \<^verbatim>\<open>quick_sorted\<close>: the three buckets are three new empty lists; the scan appends to
  them.  The scan runs over \<open>xs2\<close>, which no statement of the loop body touches.
\<close>

definition bucket_step_h :: "'a comparator \<Rightarrow> 'a \<Rightarrow> ref \<Rightarrow> ref \<Rightarrow> ref \<Rightarrow> 'a heap \<Rightarrow> 'a \<Rightarrow> 'a heap" where
  "bucket_step_h cmp pivot less_ref greater_ref equal_ref h items =
     (let comparison = cmp items pivot;
          h1 = (if comparison = -1 then append_h h less_ref items else h);
          h2 = (if comparison = 1 then append_h h1 greater_ref items else h1);
          h3 = (if comparison = 0 then append_h h2 equal_ref items else h2)
      in h3)"

partial_function (option) quick_sorted_h ::
  "(nat \<Rightarrow> nat) \<Rightarrow> 'a comparator \<Rightarrow> 'a heap \<Rightarrow> ref \<Rightarrow> nat \<Rightarrow> (('a heap \<times> ref) \<times> nat) option" where
  [code]: "quick_sorted_h rnd cmp h xs k =
     (let (h1, xs2) = new_object h (h ! xs) in
      if length (h1 ! xs2) \<le> 1 then Some ((h1, xs2), k)
      else
        (let (h2, less_ref) = new_object h1 [];
             (h3, greater_ref) = new_object h2 [];
             (h4, equal_ref) = new_object h3 [];
             pivot = random_choice rnd k (h4 ! xs2);
             h5 = foldl (bucket_step_h cmp pivot less_ref greater_ref equal_ref) h4 (h4 ! xs2)
         in do {
              ((h6, less'), k1) \<leftarrow> quick_sorted_h rnd cmp h5 less_ref (Suc k);
              ((h7, greater'), k2) \<leftarrow> quick_sorted_h rnd cmp h6 greater_ref k1;
              (let (h8, sum1) = new_object h7 (h7 ! less' @ h7 ! equal_ref)
               in Some (new_object h8 (h8 ! sum1 @ h8 ! greater'), k2))
            }))"

text \<open>
  \<^verbatim>\<open>quick_sort\<close>: \<open>array\<close> is the reference the caller passed; every item assignment
  goes to that object, and \<^verbatim>\<open>return array\<close> returns the reference.
\<close>

definition getitem_h :: "'a heap \<Rightarrow> ref \<Rightarrow> int \<Rightarrow> error + 'a" where
  "getitem_h h array i = getitem (h ! array) i"

definition setitem_h :: "'a heap \<Rightarrow> ref \<Rightarrow> int \<Rightarrow> 'a \<Rightarrow> error + 'a heap" where
  "setitem_h h array i v = bind_err (setitem (h ! array) i v) (\<lambda>a. Inr (h[array := a]))"

definition exchange_h :: "'a heap \<Rightarrow> ref \<Rightarrow> int \<Rightarrow> int \<Rightarrow> error + 'a heap" where
  "exchange_h h array i j =
     bind_err (getitem_h h array i) (\<lambda>temp.
     bind_err (getitem_h h array j) (\<lambda>v.
     bind_err (setitem_h h array i v) (\<lambda>h1.
     setitem_h h1 array j temp)))"

definition partition_body_h ::
  "'a comparator \<Rightarrow> ref \<Rightarrow> int \<Rightarrow> 'a \<Rightarrow> int \<Rightarrow> 'a heap \<times> int \<Rightarrow> error + 'a heap \<times> int" where
  "partition_body_h cmp array hi pivot j s =
     bind_err (getitem_h (fst s) array j) (\<lambda>aj.
     let comparison = cmp aj pivot in
     bind_err (if comparison = -1
               then bind_err (exchange_h (fst s) array (snd s + 1) j) (\<lambda>h1. Inr (h1, snd s + 1))
               else Inr s) (\<lambda>s1.
     bind_err (if comparison = 0
               then bind_err (exchange_h (fst s1) array (snd s1 + 1) j) (\<lambda>h2. Inr (h2, snd s1 + 1))
               else Inr s1) (\<lambda>s2.
     bind_err (exchange_h (fst s2) array (snd s2 + 1) hi) (\<lambda>h3.
     Inr (h3, snd s2 + 1)))))"

definition partition_h ::
  "'a comparator \<Rightarrow> 'a heap \<Rightarrow> ref \<Rightarrow> int \<Rightarrow> int \<Rightarrow> error + 'a heap \<times> int option" where
  "partition_h cmp h array lo hi =
     bind_err (getitem_h h array hi) (\<lambda>pivot.
     let i = lo - 1 in
     case [lo..hi - 1] of
       [] \<Rightarrow> Inr (h, None)
     | j # _ \<Rightarrow> bind_err (partition_body_h cmp array hi pivot j (h, i)) (\<lambda>(h1, p). Inr (h1, Some p)))"

function quicksort_h ::
  "'a comparator \<Rightarrow> 'a heap \<Rightarrow> ref \<Rightarrow> int \<Rightarrow> int \<Rightarrow> error + 'a heap \<times> ref" where
  "quicksort_h cmp h array lo hi =
     (if lo < hi then
        (case partition_h cmp h array lo hi of
           Inl e \<Rightarrow> Inl e
         | Inr (h1, None) \<Rightarrow> Inl TypeError
         | Inr (h1, Some p) \<Rightarrow>
            (case quicksort_h cmp h1 array lo (p - 1) of
               Inl e \<Rightarrow> Inl e
             | Inr (h2, _) \<Rightarrow>
                (case quicksort_h cmp h2 array (p + 1) hi of
                   Inl e \<Rightarrow> Inl e
                 | Inr (h3, _) \<Rightarrow> Inr (h3, array))))
      else Inr (h, array))"
  by pat_completeness auto
termination
proof (relation "measure (\<lambda>(cmp, h, array, lo, hi). nat (hi - lo))", goal_cases)
  case 1
  show ?case by simp
next
  case (2 cmp h array lo hi r h1 po p)
  from \<open>lo < hi\<close> have "[lo..hi - 1] = lo # [lo + 1..hi - 1]"
    by (simp add: upto_rec1)
  with 2 have "p = lo \<or> p = lo + 1"
    by (auto simp: partition_h_def partition_body_h_def bind_err_def Let_def
             split: sum.splits if_splits)
  with \<open>lo < hi\<close> show ?case by auto
next
  case (3 cmp h array lo hi r h1 po p r2 h2 a2)
  from \<open>lo < hi\<close> have "[lo..hi - 1] = lo # [lo + 1..hi - 1]"
    by (simp add: upto_rec1)
  with 3 have "p = lo \<or> p = lo + 1"
    by (auto simp: partition_h_def partition_body_h_def bind_err_def Let_def
             split: sum.splits if_splits)
  with \<open>lo < hi\<close> show ?case by auto
qed

definition quick_sort_h :: "'a comparator \<Rightarrow> 'a heap \<Rightarrow> ref \<Rightarrow> error + 'a heap \<times> ref" where
  "quick_sort_h cmp h xs = quicksort_h cmp h xs 0 (int (length (h ! xs)) - 1)"

declare quicksort_h.simps [simp del]

section \<open>Specification vocabulary\<close>

text \<open>
  The comparator contract of the module docstring: results in \<open>{-1, 0, 1}\<close>
  (\<open>three_way\<close>); swapping the arguments flips the sign and "not greater" is transitive
  (\<open>contract\<close>, a total preorder).  A list is sorted when no adjacent pair compares as
  greater.  \<open>merge_spec\<close> is the merge as the specification words it, one emitted element
  (or tied pair) per step.
\<close>

definition three_way :: "'a comparator \<Rightarrow> bool" where
  "three_way cmp = (\<forall>a b. cmp a b = -1 \<or> cmp a b = 0 \<or> cmp a b = 1)"

definition contract :: "'a comparator \<Rightarrow> bool" where
  "contract cmp =
     (three_way cmp \<and> (\<forall>a b. cmp b a = - cmp a b) \<and>
      (\<forall>a b c. cmp a b \<noteq> 1 \<longrightarrow> cmp b c \<noteq> 1 \<longrightarrow> cmp a c \<noteq> 1))"

fun sorted_by :: "'a comparator \<Rightarrow> 'a list \<Rightarrow> bool" where
  "sorted_by cmp [] = True"
| "sorted_by cmp [x] = True"
| "sorted_by cmp (x # y # zs) = (cmp x y \<noteq> 1 \<and> sorted_by cmp (y # zs))"

fun merge_spec :: "'a comparator \<Rightarrow> 'a list \<Rightarrow> 'a list \<Rightarrow> 'a list" where
  "merge_spec cmp [] ys = ys"
| "merge_spec cmp xs [] = xs"
| "merge_spec cmp (x # xs) (y # ys) =
     (if cmp x y = -1 then x # merge_spec cmp xs (y # ys)
      else if cmp x y = 1 then y # merge_spec cmp (x # xs) ys
      else x # y # merge_spec cmp xs ys)"

text \<open>
  \<open>after_passes cmp xs ys n\<close> is the state of the loop of \<^verbatim>\<open>_merged\<close> after \<open>n\<close>
  passes through its body; \<open>in_loop\<close> is the loop condition.
\<close>

definition in_loop :: "'a list \<Rightarrow> 'a list \<Rightarrow> 'a merge_state \<Rightarrow> bool" where
  "in_loop xs ys s = (fst (snd s) < length xs \<and> snd (snd s) < length ys)"

definition after_passes :: "'a comparator \<Rightarrow> 'a list \<Rightarrow> 'a list \<Rightarrow> nat \<Rightarrow> 'a merge_state" where
  "after_passes cmp xs ys n = (merged_body cmp xs ys ^^ n) ([], 0, 0)"

text \<open>
  \<open>class_of cmp c xs\<close> lists, in their order in \<open>xs\<close>, the elements that the comparator
  holds equivalent to \<open>c\<close>.  A sort is stable when it leaves every such list as it was.
\<close>

definition class_of :: "'a comparator \<Rightarrow> 'a \<Rightarrow> 'a list \<Rightarrow> 'a list" where
  "class_of cmp c xs = filter (\<lambda>z. cmp z c = 0) xs"

text \<open>Comparators and a pivot choice used in the examples below.\<close>

definition by_first_component :: "(int \<times> string) comparator" where
  "by_first_component a b = cmp_standard (fst a) (fst b)"

definition always_less :: "int comparator" where
  "always_less a b = -1"

definition always_two :: "int comparator" where
  "always_two a b = 2"

definition first_index :: "nat \<Rightarrow> nat" where
  "first_index k = 0"

definition two_at_3_4 :: "int comparator" where
  "two_at_3_4 a b = (if a = 3 \<and> b = 4 then 2 else cmp_standard a b)"

text \<open>
  \<open>extends h h'\<close>: the store \<open>h'\<close> holds every object of \<open>h\<close>, at the same reference
  and with the same contents, possibly followed by new objects.
\<close>

definition extends :: "'a heap \<Rightarrow> 'a heap \<Rightarrow> bool" where
  "extends h h' = (take (length h) h' = h)"

section \<open>The merge loop computes the specified merge\<close>

lemma merge_spec_Nil2: "merge_spec cmp xs [] = xs"
  by (cases xs) simp_all

lemma merged_body_eq:
  "merged_body cmp xs ys (nl, c1, c2) =
     (if cmp (xs ! c1) (ys ! c2) = -1 then (nl @ [xs ! c1], c1 + 1, c2)
      else if cmp (xs ! c1) (ys ! c2) = 1 then (nl @ [ys ! c2], c1, c2 + 1)
      else if cmp (xs ! c1) (ys ! c2) = 0 then (nl @ [xs ! c1, ys ! c2], c1 + 1, c2 + 1)
      else (nl, c1, c2))"
  by (simp add: merged_body_def Let_def)

lemma merged_loop_spec:
  assumes tw: "three_way cmp"
  shows "\<exists>nl' c1' c2'. merged_loop cmp xs ys (nl, c1, c2) = Some (nl', c1', c2') \<and>
           (nl' @ drop c1' xs) @ drop c2' ys = nl @ merge_spec cmp (drop c1 xs) (drop c2 ys)"
proof (induction "(length xs - c1) + (length ys - c2)" arbitrary: nl c1 c2 rule: less_induct)
  case less
  show ?case
  proof (cases "c1 < length xs \<and> c2 < length ys")
    case False
    then have "drop c1 xs = [] \<or> drop c2 ys = []" by auto
    then have "merge_spec cmp (drop c1 xs) (drop c2 ys) = drop c1 xs @ drop c2 ys"
      by (auto simp: merge_spec_Nil2)
    moreover from False have "merged_loop cmp xs ys (nl, c1, c2) = Some (nl, c1, c2)"
      by (subst merged_loop.simps) auto
    ultimately show ?thesis by simp
  next
    case True
    let ?x = "xs ! c1" and ?y = "ys ! c2"
    from True have dx: "drop c1 xs = ?x # drop (Suc c1) xs"
      and dy: "drop c2 ys = ?y # drop (Suc c2) ys"
      by (simp_all add: Cons_nth_drop_Suc)
    from True have unfold: "merged_loop cmp xs ys (nl, c1, c2) =
        merged_loop cmp xs ys (merged_body cmp xs ys (nl, c1, c2))"
      by (subst merged_loop.simps) simp
    from tw have "cmp ?x ?y = -1 \<or> cmp ?x ?y = 0 \<or> cmp ?x ?y = 1"
      by (simp add: three_way_def)
    then consider (lt) "cmp ?x ?y = -1" | (eq) "cmp ?x ?y = 0" | (gt) "cmp ?x ?y = 1"
      by blast
    then show ?thesis
    proof cases
      case lt
      have "merge_spec cmp (?x # drop (Suc c1) xs) (?y # drop (Suc c2) ys) =
              ?x # merge_spec cmp (drop (Suc c1) xs) (?y # drop (Suc c2) ys)"
        using lt by simp
      then have ms: "merge_spec cmp (drop c1 xs) (drop c2 ys) =
              ?x # merge_spec cmp (drop (Suc c1) xs) (drop c2 ys)"
        by (simp only: dx[symmetric] dy[symmetric])
      have "(length xs - (c1 + 1)) + (length ys - c2) < (length xs - c1) + (length ys - c2)"
        using True by arith
      from less[OF this, of "nl @ [?x]"] show ?thesis
        using lt by (simp add: unfold merged_body_eq ms)
    next
      case gt
      have "merge_spec cmp (?x # drop (Suc c1) xs) (?y # drop (Suc c2) ys) =
              ?y # merge_spec cmp (?x # drop (Suc c1) xs) (drop (Suc c2) ys)"
        using gt by simp
      then have ms: "merge_spec cmp (drop c1 xs) (drop c2 ys) =
              ?y # merge_spec cmp (drop c1 xs) (drop (Suc c2) ys)"
        by (simp only: dx[symmetric] dy[symmetric])
      have "(length xs - c1) + (length ys - (c2 + 1)) < (length xs - c1) + (length ys - c2)"
        using True by arith
      from less[OF this, of "nl @ [?y]"] show ?thesis
        using gt by (simp add: unfold merged_body_eq ms)
    next
      case eq
      have "merge_spec cmp (?x # drop (Suc c1) xs) (?y # drop (Suc c2) ys) =
              ?x # ?y # merge_spec cmp (drop (Suc c1) xs) (drop (Suc c2) ys)"
        using eq by simp
      then have ms: "merge_spec cmp (drop c1 xs) (drop c2 ys) =
              ?x # ?y # merge_spec cmp (drop (Suc c1) xs) (drop (Suc c2) ys)"
        by (simp only: dx[symmetric] dy[symmetric])
      have "(length xs - (c1 + 1)) + (length ys - (c2 + 1)) < (length xs - c1) + (length ys - c2)"
        using True by arith
      from less[OF this, of "nl @ [?x, ?y]"] show ?thesis
        using eq by (simp add: unfold merged_body_eq ms)
    qed
  qed
qed

lemma merged_eq_spec:
  assumes "three_way cmp"
  shows "merged cmp xs ys = Some (merge_spec cmp xs ys)"
proof -
  from merged_loop_spec[OF assms, of xs ys "[]" 0 0]
  show ?thesis by (auto simp: merged_def)
qed

lemma length_merge_spec: "length (merge_spec cmp xs ys) = length xs + length ys"
  by (induction cmp xs ys rule: merge_spec.induct) simp_all

lemma mset_merge_spec: "mset (merge_spec cmp xs ys) = mset xs + mset ys"
  by (induction cmp xs ys rule: merge_spec.induct) simp_all

lemma merged_loop_stuck:
  assumes "merged_loop cmp xs ys s = Some r"
  shows "\<not> (fst (snd s) < length xs \<and> snd (snd s) < length ys \<and> merged_body cmp xs ys s = s)"
  by (rule merged_loop.raw_induct
        [where P = "\<lambda>cmp xs ys s r. \<not> (fst (snd s) < length xs \<and> snd (snd s) < length ys \<and>
                                      merged_body cmp xs ys s = s)", OF _ assms])
     (auto split: if_splits)

lemma merged_loop_stuck_None:
  assumes "fst (snd s) < length xs" "snd (snd s) < length ys" "merged_body cmp xs ys s = s"
  shows "merged_loop cmp xs ys s = None"
proof (cases "merged_loop cmp xs ys s")
  case (Some r)
  from merged_loop_stuck[OF Some] assms show ?thesis by blast
qed simp

lemma merged_loop_passes:
  "(\<forall>i<n. in_loop xs ys ((merged_body cmp xs ys ^^ i) s)) \<Longrightarrow>
   merged_loop cmp xs ys s = merged_loop cmp xs ys ((merged_body cmp xs ys ^^ n) s)"
proof (induction n)
  case 0
  show ?case by simp
next
  case (Suc n)
  from Suc.prems have "\<forall>i<n. in_loop xs ys ((merged_body cmp xs ys ^^ i) s)" by simp
  from Suc.IH[OF this]
  have "merged_loop cmp xs ys s = merged_loop cmp xs ys ((merged_body cmp xs ys ^^ n) s)" .
  also from Suc.prems have "in_loop xs ys ((merged_body cmp xs ys ^^ n) s)" by simp
  then have "merged_loop cmp xs ys ((merged_body cmp xs ys ^^ n) s) =
             merged_loop cmp xs ys (merged_body cmp xs ys ((merged_body cmp xs ys ^^ n) s))"
    by (subst merged_loop.simps) (simp add: in_loop_def)
  finally show ?case by simp
qed

section \<open>Consequences of the comparator contract\<close>

lemma contract_three_way: "contract cmp \<Longrightarrow> three_way cmp"
  unfolding contract_def by blast

lemma contract_flip: "contract cmp \<Longrightarrow> cmp b a = - cmp a b"
  unfolding contract_def by blast

lemma contract_refl: "contract cmp \<Longrightarrow> cmp a a = 0"
  using contract_flip[of cmp a a] by arith

lemma contract_trans: "contract cmp \<Longrightarrow> cmp a b \<noteq> 1 \<Longrightarrow> cmp b c \<noteq> 1 \<Longrightarrow> cmp a c \<noteq> 1"
  unfolding contract_def by blast

lemma contract_cases:
  "contract cmp \<Longrightarrow> cmp a b = -1 \<or> cmp a b = 0 \<or> cmp a b = 1"
  unfolding contract_def three_way_def by blast

lemma contract_equiv_left:
  assumes c: "contract cmp" and e: "cmp x c = 0"
  shows "cmp x p = cmp c p"
proof -
  have cx: "cmp c x = 0" using contract_flip[OF c, of x c] e by arith
  have g: "cmp x p = 1 \<longleftrightarrow> cmp c p = 1"
    using contract_trans[OF c, of c x p] contract_trans[OF c, of x c p] e cx by auto
  have "cmp p x = 1 \<longleftrightarrow> cmp p c = 1"
    using contract_trans[OF c, of p x c] contract_trans[OF c, of p c x] e cx by auto
  then have l: "cmp x p = -1 \<longleftrightarrow> cmp c p = -1"
    using contract_flip[OF c, of x p] contract_flip[OF c, of c p] by arith
  from g l contract_cases[OF c, of x p] contract_cases[OF c, of c p] show ?thesis
    by arith
qed

lemma contract_equiv_right:
  assumes c: "contract cmp" and e: "cmp x c = 0"
  shows "cmp p x = cmp p c"
  using contract_equiv_left[OF c e, of p] contract_flip[OF c, of x p] contract_flip[OF c, of c p]
  by arith

lemma sorted_by_iff_sorted_wrt:
  "contract cmp \<Longrightarrow> sorted_by cmp xs \<longleftrightarrow> sorted_wrt (\<lambda>x y. cmp x y \<noteq> 1) xs"
proof (induction cmp xs rule: sorted_by.induct)
  case (3 cmp x y zs)
  have "\<And>z. cmp x y \<noteq> 1 \<Longrightarrow> cmp y z \<noteq> 1 \<Longrightarrow> cmp x z \<noteq> 1"
    using contract_trans[OF 3(2)] by blast
  with 3 show ?case by auto
qed simp_all

lemma set_merge_spec: "set (merge_spec cmp xs ys) = set xs \<union> set ys"
  by (induction cmp xs ys rule: merge_spec.induct) auto

lemma sorted_merge_spec:
  "contract cmp \<Longrightarrow> sorted_wrt (\<lambda>x y. cmp x y \<noteq> 1) xs \<Longrightarrow> sorted_wrt (\<lambda>x y. cmp x y \<noteq> 1) ys \<Longrightarrow>
         sorted_wrt (\<lambda>x y. cmp x y \<noteq> 1) (merge_spec cmp xs ys)"
proof (induction cmp xs ys rule: merge_spec.induct)
  case (3 cmp x xs y ys)
  note c = \<open>contract cmp\<close>
  have tr: "\<And>a b d. cmp a b \<noteq> 1 \<Longrightarrow> cmp b d \<noteq> 1 \<Longrightarrow> cmp a d \<noteq> 1"
    using contract_trans[OF c] by blast
  from 3 have sx: "sorted_wrt (\<lambda>x y. cmp x y \<noteq> 1) xs" and sy: "sorted_wrt (\<lambda>x y. cmp x y \<noteq> 1) ys"
    and hx: "\<forall>z\<in>set xs. cmp x z \<noteq> 1" and hy: "\<forall>z\<in>set ys. cmp y z \<noteq> 1"
    by simp_all
  consider (lt) "cmp x y = -1" | (gt) "cmp x y = 1" | (eq) "cmp x y = 0"
    using contract_cases[OF c, of x y] by blast
  then show ?case
  proof cases
    case lt
    then have xy: "cmp x y \<noteq> 1" by simp
    have "sorted_wrt (\<lambda>x y. cmp x y \<noteq> 1) (merge_spec cmp xs (y # ys))"
      using 3(1)[OF lt c sx 3(6)] .
    moreover have "\<forall>z\<in>set xs \<union> set (y # ys). cmp x z \<noteq> 1"
      using hx hy xy tr by (simp only: list.set) blast
    ultimately show ?thesis using lt by (simp add: set_merge_spec)
  next
    case gt
    then have yx: "cmp y x \<noteq> 1" using contract_flip[OF c, of x y] by arith
    from gt have ne: "cmp x y \<noteq> -1" by simp
    have "sorted_wrt (\<lambda>x y. cmp x y \<noteq> 1) (merge_spec cmp (x # xs) ys)"
      using 3(2)[OF ne gt c 3(5) sy] .
    moreover have "\<forall>z\<in>set (x # xs) \<union> set ys. cmp y z \<noteq> 1"
      using hx hy yx tr by (simp only: list.set) blast
    ultimately show ?thesis using gt by (simp add: set_merge_spec)
  next
    case eq
    then have xy: "cmp x y \<noteq> 1" by simp
    from eq have yx: "cmp y x \<noteq> 1" using contract_flip[OF c, of x y] by arith
    from eq have n1: "cmp x y \<noteq> -1" and n2: "cmp x y \<noteq> 1" by simp_all
    have "sorted_wrt (\<lambda>x y. cmp x y \<noteq> 1) (merge_spec cmp xs ys)"
      using 3(3)[OF n1 n2 c sx sy] .
    moreover have "\<forall>z\<in>set xs \<union> set ys. cmp x z \<noteq> 1"
      using hx hy xy tr by blast
    moreover have "\<forall>z\<in>set xs \<union> set ys. cmp y z \<noteq> 1"
      using hx hy yx tr by blast
    ultimately show ?thesis using eq xy by (simp add: set_merge_spec)
  qed
qed simp_all

section \<open>Stability of the merge and uniqueness of stable sorted lists\<close>

lemma filter_merge_spec:
  "contract cmp \<Longrightarrow> sorted_wrt (\<lambda>x y. cmp x y \<noteq> 1) xs \<Longrightarrow> sorted_wrt (\<lambda>x y. cmp x y \<noteq> 1) ys \<Longrightarrow>
   length (filter (\<lambda>z. cmp z c = 0) xs) + length (filter (\<lambda>z. cmp z c = 0) ys) \<le> 2 \<Longrightarrow>
   filter (\<lambda>z. cmp z c = 0) (merge_spec cmp xs ys) =
     filter (\<lambda>z. cmp z c = 0) xs @ filter (\<lambda>z. cmp z c = 0) ys"
proof (induction cmp xs ys rule: merge_spec.induct)
  case (3 cmp x xs y ys)
  note ct = \<open>contract cmp\<close>
  let ?E = "\<lambda>z. cmp z c = 0"
  from 3 have sx: "sorted_wrt (\<lambda>x y. cmp x y \<noteq> 1) xs" and sy: "sorted_wrt (\<lambda>x y. cmp x y \<noteq> 1) ys"
    and hx: "\<forall>z\<in>set xs. cmp x z \<noteq> 1"
    by simp_all
  note len = \<open>length (filter ?E (x # xs)) + length (filter ?E (y # ys)) \<le> 2\<close>
  consider (lt) "cmp x y = -1" | (gt) "cmp x y = 1" | (eq) "cmp x y = 0"
    using contract_cases[OF ct, of x y] by blast
  then show ?case
  proof cases
    case lt
    have "length (filter ?E xs) + length (filter ?E (y # ys)) \<le> 2"
      using len by (simp split: if_splits)
    from 3(1)[OF lt ct sx 3(6) this] show ?thesis using lt by simp
  next
    case gt
    from gt have ne: "cmp x y \<noteq> -1" by simp
    have "length (filter ?E (x # xs)) + length (filter ?E ys) \<le> 2"
      using len by (simp split: if_splits)
    from 3(2)[OF ne gt ct 3(5) sy this]
    have ih: "filter ?E (merge_spec cmp (x # xs) ys) = filter ?E (x # xs) @ filter ?E ys" .
    show ?thesis
    proof (cases "cmp y c = 0")
      case False
      with ih gt show ?thesis by simp
    next
      case True
      have "\<And>z. z \<in> set (x # xs) \<Longrightarrow> cmp z c \<noteq> 0"
      proof
        fix z assume z: "z \<in> set (x # xs)" and zc: "cmp z c = 0"
        from z hx contract_refl[OF ct, of x] have xz: "cmp x z \<noteq> 1" by auto
        have "cmp z y = cmp c y" using contract_equiv_left[OF ct zc] .
        also have "\<dots> = - cmp y c" using contract_flip[OF ct, of c y] .
        finally have "cmp z y \<noteq> 1" using True by simp
        from contract_trans[OF ct xz this] gt show False by simp
      qed
      then have "filter ?E (x # xs) = []" by (simp only: filter_empty_conv) blast
      with ih gt True show ?thesis by simp
    qed
  next
    case eq
    from eq have n1: "cmp x y \<noteq> -1" and n2: "cmp x y \<noteq> 1" by simp_all
    have xc: "cmp x c = cmp y c" using contract_equiv_left[OF ct eq] .
    have "length (filter ?E xs) + length (filter ?E ys) \<le> 2"
      using len by (simp split: if_splits)
    from 3(3)[OF n1 n2 ct sx sy this]
    have ih: "filter ?E (merge_spec cmp xs ys) = filter ?E xs @ filter ?E ys" .
    show ?thesis
    proof (cases "cmp y c = 0")
      case False
      with ih eq xc show ?thesis by simp
    next
      case True
      with len xc have "filter ?E xs = []" "filter ?E ys = []" by simp_all
      with ih eq xc True show ?thesis by simp
    qed
  qed
qed simp_all

lemma sorted_stable_unique:
  "contract cmp \<Longrightarrow> sorted_wrt (\<lambda>x y. cmp x y \<noteq> 1) xs \<Longrightarrow> sorted_wrt (\<lambda>x y. cmp x y \<noteq> 1) ys \<Longrightarrow>
   (\<And>c. filter (\<lambda>z. cmp z c = 0) xs = filter (\<lambda>z. cmp z c = 0) ys) \<Longrightarrow> xs = ys"
proof (induction xs arbitrary: ys)
  case Nil
  show ?case
  proof (cases ys)
    case (Cons y ys')
    with Nil(4)[of y] contract_refl[OF Nil(1), of y] show ?thesis by simp
  qed simp
next
  case (Cons x xs)
  note ct = \<open>contract cmp\<close>
  have xx: "cmp x x = 0" using contract_refl[OF ct] .
  have "x \<in> set (filter (\<lambda>z. cmp z x = 0) (x # xs))" using xx by simp
  then have "x \<in> set (filter (\<lambda>z. cmp z x = 0) ys)"
    by (simp only: Cons.prems(4)[of x])
  then have xin: "x \<in> set ys" by simp
  then obtain y ys' where ys: "ys = y # ys'" by (cases ys) auto
  have yy: "cmp y y = 0" using contract_refl[OF ct] .
  have "x = y"
  proof (cases "cmp y x = 0")
    case True
    with Cons.prems(4)[of x] xx ys show ?thesis by simp
  next
    case False
    then have xy0: "cmp x y \<noteq> 0" using contract_flip[OF ct, of x y] by arith
    from Cons.prems(3) ys xin yy have yx: "cmp y x \<noteq> 1" by auto
    have "y \<in> set (filter (\<lambda>z. cmp z y = 0) ys)" using yy ys by simp
    then have "y \<in> set (filter (\<lambda>z. cmp z y = 0) (x # xs))"
      by (simp only: Cons.prems(4)[of y, symmetric])
    then have "y \<in> set (x # xs)" by (simp only: set_filter) blast
    with Cons.prems(2) xx have "cmp x y \<noteq> 1" by auto
    with yx xy0 contract_flip[OF ct, of x y] contract_cases[OF ct, of x y]
    show ?thesis by arith
  qed
  moreover have "xs = ys'"
  proof (rule Cons.IH[OF ct])
    show "sorted_wrt (\<lambda>x y. cmp x y \<noteq> 1) xs" using Cons.prems(2) by simp
    show "sorted_wrt (\<lambda>x y. cmp x y \<noteq> 1) ys'" using Cons.prems(3) ys by simp
    fix c
    from Cons.prems(4)[of c] ys \<open>x = y\<close>
    show "filter (\<lambda>z. cmp z c = 0) xs = filter (\<lambda>z. cmp z c = 0) ys'"
      by (simp split: if_splits)
  qed
  ultimately show ?case using ys by simp
qed

section \<open>Merge sort: result, multiset, order, stability\<close>

lemma split_left_right: "split_left xs @ split_right xs = xs"
  by (simp add: split_left_def split_right_def)

lemma merge_sorted_base: "length xs \<le> 1 \<Longrightarrow> merge_sorted cmp xs = Some xs"
  by (subst merge_sorted.simps) simp

lemma merge_sorted_step:
  "\<not> length xs \<le> 1 \<Longrightarrow> merge_sorted cmp (split_left xs) = Some lmerge \<Longrightarrow>
   merge_sorted cmp (split_right xs) = Some rmerge \<Longrightarrow>
   merge_sorted cmp xs = merged cmp lmerge rmerge"
  by (subst merge_sorted.simps) simp

lemma merge_sorted_mset:
  "three_way cmp \<Longrightarrow> \<exists>ys. merge_sorted cmp xs = Some ys \<and> mset ys = mset xs"
proof (induction cmp xs rule: merge_sorted.induct)
  case (1 cmp xs)
  show ?case
  proof (cases "length xs \<le> 1")
    case True
    then show ?thesis by (simp add: merge_sorted_base)
  next
    case False
    from 1(1)[OF False 1(3)] obtain l
      where l: "merge_sorted cmp (split_left xs) = Some l" "mset l = mset (split_left xs)"
      by blast
    from 1(2)[OF False l(1) 1(3)] obtain r
      where r: "merge_sorted cmp (split_right xs) = Some r" "mset r = mset (split_right xs)"
      by blast
    have "merge_sorted cmp xs = Some (merge_spec cmp l r)"
      using merge_sorted_step[OF False l(1) r(1)] merged_eq_spec[OF 1(3)] by simp
    moreover have "mset (merge_spec cmp l r) = mset (split_left xs @ split_right xs)"
      using l(2) r(2) by (simp add: mset_merge_spec)
    ultimately show ?thesis by (simp add: split_left_right)
  qed
qed

lemma sorted_wrt_short: "length xs \<le> 1 \<Longrightarrow> sorted_wrt P xs"
  by (cases xs) auto

lemma merge_sorted_sorted_stable:
  "contract cmp \<Longrightarrow>
   \<exists>ys. merge_sorted cmp xs = Some ys \<and> sorted_wrt (\<lambda>x y. cmp x y \<noteq> 1) ys \<and>
     (\<forall>c. length (filter (\<lambda>z. cmp z c = 0) xs) \<le> 2 \<longrightarrow>
          filter (\<lambda>z. cmp z c = 0) ys = filter (\<lambda>z. cmp z c = 0) xs)"
proof (induction cmp xs rule: merge_sorted.induct)
  case (1 cmp xs)
  note ct = \<open>contract cmp\<close>
  show ?case
  proof (cases "length xs \<le> 1")
    case True
    then show ?thesis by (simp add: merge_sorted_base sorted_wrt_short)
  next
    case False
    let ?le = "\<lambda>x y. cmp x y \<noteq> 1"
    let ?L = "split_left xs" and ?R = "split_right xs"
    from 1(1)[OF False ct] obtain l
      where l: "merge_sorted cmp ?L = Some l" "sorted_wrt ?le l"
        "\<And>c. length (filter (\<lambda>z. cmp z c = 0) ?L) \<le> 2 \<Longrightarrow>
           filter (\<lambda>z. cmp z c = 0) l = filter (\<lambda>z. cmp z c = 0) ?L"
      by blast
    from 1(2)[OF False l(1) ct] obtain r
      where r: "merge_sorted cmp ?R = Some r" "sorted_wrt ?le r"
        "\<And>c. length (filter (\<lambda>z. cmp z c = 0) ?R) \<le> 2 \<Longrightarrow>
           filter (\<lambda>z. cmp z c = 0) r = filter (\<lambda>z. cmp z c = 0) ?R"
      by blast
    have res: "merge_sorted cmp xs = Some (merge_spec cmp l r)"
      using merge_sorted_step[OF False l(1) r(1)] merged_eq_spec[OF contract_three_way[OF ct]]
      by simp
    have srt: "sorted_wrt ?le (merge_spec cmp l r)"
      using sorted_merge_spec[OF ct l(2) r(2)] .
    have stab: "filter (\<lambda>z. cmp z c = 0) (merge_spec cmp l r) = filter (\<lambda>z. cmp z c = 0) xs"
      if len: "length (filter (\<lambda>z. cmp z c = 0) xs) \<le> 2" for c
    proof -
      have fx: "filter (\<lambda>z. cmp z c = 0) xs =
                  filter (\<lambda>z. cmp z c = 0) ?L @ filter (\<lambda>z. cmp z c = 0) ?R"
        using arg_cong[OF split_left_right[of xs], of "filter (\<lambda>z. cmp z c = 0)"]
        by (simp only: filter_append)
      with len have ll: "length (filter (\<lambda>z. cmp z c = 0) ?L) +
                         length (filter (\<lambda>z. cmp z c = 0) ?R) \<le> 2"
        by simp
      then have fl: "filter (\<lambda>z. cmp z c = 0) l = filter (\<lambda>z. cmp z c = 0) ?L"
        and fr: "filter (\<lambda>z. cmp z c = 0) r = filter (\<lambda>z. cmp z c = 0) ?R"
        using l(3)[of c] r(3)[of c] by simp_all
      from ll have "length (filter (\<lambda>z. cmp z c = 0) l) + length (filter (\<lambda>z. cmp z c = 0) r) \<le> 2"
        by (simp only: fl fr)
      from filter_merge_spec[OF ct l(2) r(2) this] show ?thesis
        by (simp only: fl fr fx)
    qed
    from res srt stab show ?thesis by blast
  qed
qed

section \<open>Copy-based quicksort: buckets, multiset, termination\<close>

lemma bucket_step_eq:
  "bucket_step cmp pivot b x =
     \<lparr>less_than_pivot = less_than_pivot b @ (if cmp x pivot = -1 then [x] else []),
      greater_than_pivot = greater_than_pivot b @ (if cmp x pivot = 1 then [x] else []),
      equal_to_pivot = equal_to_pivot b @ (if cmp x pivot = 0 then [x] else [])\<rparr>"
  by (simp add: bucket_step_def Let_def)

lemma foldl_bucket_step:
  "foldl (bucket_step cmp pivot) b xs =
     \<lparr>less_than_pivot = less_than_pivot b @ filter (\<lambda>x. cmp x pivot = -1) xs,
      greater_than_pivot = greater_than_pivot b @ filter (\<lambda>x. cmp x pivot = 1) xs,
      equal_to_pivot = equal_to_pivot b @ filter (\<lambda>x. cmp x pivot = 0) xs\<rparr>"
proof (induction xs arbitrary: b)
  case Nil
  show ?case by simp
next
  case (Cons x xs)
  show ?case by (simp only: foldl_Cons Cons.IH) (simp add: bucket_step_eq)
qed

lemma fill_buckets_eq:
  "fill_buckets cmp pivot xs =
     \<lparr>less_than_pivot = filter (\<lambda>x. cmp x pivot = -1) xs,
      greater_than_pivot = filter (\<lambda>x. cmp x pivot = 1) xs,
      equal_to_pivot = filter (\<lambda>x. cmp x pivot = 0) xs\<rparr>"
  by (simp add: fill_buckets_def foldl_bucket_step)

lemma random_choice_in_set: "xs \<noteq> [] \<Longrightarrow> random_choice rnd k xs \<in> set xs"
  by (simp add: random_choice_def)

lemma quick_sorted_base: "length xs \<le> 1 \<Longrightarrow> quick_sorted rnd cmp xs k = Some (xs, k)"
  by (subst quick_sorted.simps) simp

lemma quick_sorted_step:
  "\<not> length xs \<le> 1 \<Longrightarrow>
   quick_sorted rnd cmp xs k =
     quick_sorted rnd cmp (filter (\<lambda>x. cmp x (random_choice rnd k xs) = -1) xs) (Suc k) \<bind>
       (\<lambda>(less', k1).
          quick_sorted rnd cmp (filter (\<lambda>x. cmp x (random_choice rnd k xs) = 1) xs) k1 \<bind>
            (\<lambda>(greater', k2).
               Some ((less' @ filter (\<lambda>x. cmp x (random_choice rnd k xs) = 0) xs) @ greater', k2)))"
  by (subst quick_sorted.simps) (simp add: fill_buckets_eq Let_def)

lemma mset_three_buckets:
  "three_way cmp \<Longrightarrow>
   mset (filter (\<lambda>x. cmp x p = -1) xs) + mset (filter (\<lambda>x. cmp x p = 0) xs) +
   mset (filter (\<lambda>x. cmp x p = 1) xs) = mset xs"
proof (induction xs)
  case Nil
  show ?case by simp
next
  case (Cons x xs)
  from Cons.prems have "cmp x p = -1 \<or> cmp x p = 0 \<or> cmp x p = 1"
    unfolding three_way_def by blast
  with Cons.IH[OF Cons.prems] show ?case by auto
qed

lemma quick_sorted_mset:
  assumes "quick_sorted rnd cmp xs k = Some r"
  shows "three_way cmp \<longrightarrow> mset (fst r) = mset xs"
proof (rule quick_sorted.raw_induct
        [where P = "\<lambda>rnd cmp xs k r. three_way cmp \<longrightarrow> mset (fst r) = mset xs", OF _ assms])
  fix qs :: "(nat \<Rightarrow> nat) \<Rightarrow> 'a comparator \<Rightarrow> 'a list \<Rightarrow> nat \<Rightarrow> ('a list \<times> nat) option"
    and rnd cmp xs k r
  assume ih: "\<And>rnd cmp xs k r. qs rnd cmp xs k = Some r \<Longrightarrow> three_way cmp \<longrightarrow> mset (fst r) = mset xs"
    and step: "(if length xs \<le> 1 then Some (xs, k)
      else let pivot = random_choice rnd k xs; b = fill_buckets cmp pivot xs
           in qs rnd cmp (less_than_pivot b) (Suc k) \<bind>
              (\<lambda>(less', k1). qs rnd cmp (greater_than_pivot b) k1 \<bind>
                 (\<lambda>(greater', k2). Some ((less' @ equal_to_pivot b) @ greater', k2)))) = Some r"
  show "three_way cmp \<longrightarrow> mset (fst r) = mset xs"
  proof (cases "length xs \<le> 1")
    case True
    with step show ?thesis by auto
  next
    case False
    let ?p = "random_choice rnd k xs"
    from False step obtain l k1 g k2 where
      l: "qs rnd cmp (filter (\<lambda>x. cmp x ?p = -1) xs) (Suc k) = Some (l, k1)" and
      g: "qs rnd cmp (filter (\<lambda>x. cmp x ?p = 1) xs) k1 = Some (g, k2)" and
      r: "r = ((l @ filter (\<lambda>x. cmp x ?p = 0) xs) @ g, k2)"
      by (auto simp: fill_buckets_eq Let_def bind_eq_Some_conv)
    show ?thesis
    proof
      assume tw: "three_way cmp"
      from ih[OF l] ih[OF g] tw mset_three_buckets[OF tw, of ?p xs]
      show "mset (fst r) = mset xs" by (simp add: r add.assoc)
    qed
  qed
qed

lemma quick_sorted_returns:
  "(\<forall>x\<in>set xs. cmp x x = 0) \<Longrightarrow> \<exists>ys k'. quick_sorted rnd cmp xs k = Some (ys, k')"
proof (induction "length xs" arbitrary: xs k rule: less_induct)
  case less
  show ?case
  proof (cases "length xs \<le> 1")
    case True
    then show ?thesis by (simp add: quick_sorted_base)
  next
    case False
    let ?p = "random_choice rnd k xs"
    from False have "xs \<noteq> []" by auto
    then have pin: "?p \<in> set xs" by (rule random_choice_in_set)
    with less.prems have pp: "cmp ?p ?p = 0" by blast
    have "length (filter (\<lambda>x. cmp x ?p = -1) xs) < length xs"
      using pin pp by (intro length_filter_less[of ?p]) simp_all
    from less.hyps[OF this, of "Suc k"] less.prems obtain l k1 where
      l: "quick_sorted rnd cmp (filter (\<lambda>x. cmp x ?p = -1) xs) (Suc k) = Some (l, k1)"
      by auto
    have "length (filter (\<lambda>x. cmp x ?p = 1) xs) < length xs"
      using pin pp by (intro length_filter_less[of ?p]) simp_all
    from less.hyps[OF this, of k1] less.prems obtain g k2 where
      g: "quick_sorted rnd cmp (filter (\<lambda>x. cmp x ?p = 1) xs) k1 = Some (g, k2)"
      by auto
    show ?thesis by (simp add: quick_sorted_step[OF False] l g)
  qed
qed

section \<open>Copy-based quicksort under the contract: sorted and stable\<close>

lemma sorted_wrt_all_pairs: "(\<And>x y. x \<in> set xs \<Longrightarrow> y \<in> set xs \<Longrightarrow> P x y) \<Longrightarrow> sorted_wrt P xs"
  by (induction xs) auto

lemma filter_class_bucket:
  assumes ct: "contract cmp"
  shows "filter (\<lambda>z. cmp z c = 0) (filter (\<lambda>x. cmp x p = v) xs) =
         (if cmp c p = v then filter (\<lambda>z. cmp z c = 0) xs else [])"
proof (induction xs)
  case Nil
  show ?case by simp
next
  case (Cons x xs)
  show ?case
  proof (cases "cmp x c = 0")
    case True
    from contract_equiv_left[OF ct True, of p] have "cmp x p = cmp c p" .
    with True Cons.IH show ?thesis by simp
  next
    case False
    with Cons.IH show ?thesis by simp
  qed
qed

lemma filter_class_three_buckets:
  assumes ct: "contract cmp"
  shows "(filter (\<lambda>z. cmp z c = 0) (filter (\<lambda>x. cmp x p = -1) xs) @
          filter (\<lambda>z. cmp z c = 0) (filter (\<lambda>x. cmp x p = 0) xs)) @
          filter (\<lambda>z. cmp z c = 0) (filter (\<lambda>x. cmp x p = 1) xs) =
         filter (\<lambda>z. cmp z c = 0) xs"
  using contract_cases[OF ct, of c p]
  unfolding filter_class_bucket[OF ct] by auto

lemma sorted_three_buckets:
  assumes ct: "contract cmp"
    and l: "sorted_wrt (\<lambda>x y. cmp x y \<noteq> 1) l" "set l = {x \<in> set xs. cmp x p = -1}"
    and g: "sorted_wrt (\<lambda>x y. cmp x y \<noteq> 1) g" "set g = {x \<in> set xs. cmp x p = 1}"
  shows "sorted_wrt (\<lambda>x y. cmp x y \<noteq> 1) ((l @ filter (\<lambda>x. cmp x p = 0) xs) @ g)"
proof -
  let ?le = "\<lambda>x y. cmp x y \<noteq> 1"
  let ?e = "filter (\<lambda>x. cmp x p = 0) xs"
  have ee: "?le a b" if "cmp a p = 0" "cmp b p = 0" for a b
  proof -
    have "cmp a b = cmp p b" using contract_equiv_left[OF ct that(1)] .
    also have "\<dots> = - cmp b p" using contract_flip[OF ct, of p b] .
    finally show ?thesis using that(2) by simp
  qed
  have le': "?le a b" if "cmp a p = -1" "cmp b p = 0" for a b
  proof -
    have "cmp a b = cmp a p" using contract_equiv_right[OF ct that(2)] .
    with that(1) show ?thesis by simp
  qed
  have eg: "?le a b" if "cmp a p = 0" "cmp b p = 1" for a b
  proof -
    have "cmp a b = cmp p b" using contract_equiv_left[OF ct that(1)] .
    also have "\<dots> = - cmp b p" using contract_flip[OF ct, of p b] .
    finally show ?thesis using that(2) by simp
  qed
  have lg: "?le a b" if "cmp a p = -1" "cmp b p = 1" for a b
  proof -
    have "cmp p b = - cmp b p" using contract_flip[OF ct, of p b] .
    with that(2) have "cmp p b \<noteq> 1" by simp
    moreover from that(1) have "cmp a p \<noteq> 1" by simp
    ultimately show ?thesis using contract_trans[OF ct] by blast
  qed
  have "sorted_wrt ?le ?e"
    by (rule sorted_wrt_all_pairs) (simp add: ee)
  moreover have "\<forall>a\<in>set l. \<forall>b\<in>set ?e. ?le a b" using l(2) le' by simp
  moreover have "\<forall>a\<in>set l \<union> set ?e. \<forall>b\<in>set g. ?le a b"
    using l(2) g(2) lg eg by simp blast
  ultimately show ?thesis using l(1) g(1) by (simp only: sorted_wrt_append set_append)
qed

lemma quick_sorted_contract:
  assumes ct: "contract cmp"
  shows "\<exists>ys k'. quick_sorted rnd cmp xs k = Some (ys, k') \<and> mset ys = mset xs \<and>
           sorted_wrt (\<lambda>x y. cmp x y \<noteq> 1) ys \<and>
           (\<forall>c. filter (\<lambda>z. cmp z c = 0) ys = filter (\<lambda>z. cmp z c = 0) xs)"
proof (induction "length xs" arbitrary: xs k rule: less_induct)
  case less
  show ?case
  proof (cases "length xs \<le> 1")
    case True
    then show ?thesis by (simp add: quick_sorted_base sorted_wrt_short)
  next
    case False
    let ?le = "\<lambda>x y. cmp x y \<noteq> 1"
    let ?p = "random_choice rnd k xs"
    let ?L = "filter (\<lambda>x. cmp x ?p = -1) xs"
    let ?E = "filter (\<lambda>x. cmp x ?p = 0) xs"
    let ?G = "filter (\<lambda>x. cmp x ?p = 1) xs"
    from False have "xs \<noteq> []" by auto
    then have pin: "?p \<in> set xs" by (rule random_choice_in_set)
    have pp: "cmp ?p ?p = 0" using contract_refl[OF ct] .
    have "length ?L < length xs"
      using pin pp by (intro length_filter_less[of ?p]) simp_all
    from less.hyps[OF this, of "Suc k"] obtain l k1 where
      l: "quick_sorted rnd cmp ?L (Suc k) = Some (l, k1)" "mset l = mset ?L" "sorted_wrt ?le l"
         "\<And>c. filter (\<lambda>z. cmp z c = 0) l = filter (\<lambda>z. cmp z c = 0) ?L"
      by blast
    have "length ?G < length xs"
      using pin pp by (intro length_filter_less[of ?p]) simp_all
    from less.hyps[OF this, of k1] obtain g k2 where
      g: "quick_sorted rnd cmp ?G k1 = Some (g, k2)" "mset g = mset ?G" "sorted_wrt ?le g"
         "\<And>c. filter (\<lambda>z. cmp z c = 0) g = filter (\<lambda>z. cmp z c = 0) ?G"
      by blast
    let ?ys = "(l @ ?E) @ g"
    have res: "quick_sorted rnd cmp xs k = Some (?ys, k2)"
      by (simp add: quick_sorted_step[OF False] l(1) g(1))
    have ms: "mset ?ys = mset xs"
      using mset_three_buckets[OF contract_three_way[OF ct], of ?p xs] l(2) g(2)
      by (simp add: add.assoc)
    have sl: "set l = {x \<in> set xs. cmp x ?p = -1}"
      using mset_eq_setD[OF l(2)] by simp
    have sg: "set g = {x \<in> set xs. cmp x ?p = 1}"
      using mset_eq_setD[OF g(2)] by simp
    have srt: "sorted_wrt ?le ?ys"
      using sorted_three_buckets[OF ct l(3) sl g(3) sg] .
    have stab: "filter (\<lambda>z. cmp z c = 0) ?ys = filter (\<lambda>z. cmp z c = 0) xs" for c
      using filter_class_three_buckets[OF ct, of c ?p xs]
      by (simp only: filter_append l(4) g(4))
    from res ms srt stab show ?thesis by blast
  qed
qed

section \<open>In-place quicksort: no subscript fails, the multiset is kept\<close>

lemma subscript_in_range:
  "0 \<le> i \<Longrightarrow> i < int (length array) \<Longrightarrow> subscript array i = Inr (nat i)"
  by (simp add: subscript_def)

lemma exchange_in_range:
  assumes "0 \<le> i" "i < int (length array)" "0 \<le> j" "j < int (length array)"
  shows "exchange array i j = Inr (array[nat i := array ! nat j, nat j := array ! nat i])"
  using assms
  by (simp add: exchange_def getitem_def setitem_def bind_err_def subscript_in_range)

lemma mset_exchanged:
  assumes "i < length array" "j < length array"
  shows "mset (array[i := array ! j, j := array ! i]) = mset array"
  using mset_swap[OF assms(2) assms(1)] .

lemma partition_eq:
  assumes "0 \<le> lo" "lo < hi" "hi < int (length array)"
  shows "partition cmp array lo hi =
     (if cmp (array ! nat lo) (array ! nat hi) = -1 \<or> cmp (array ! nat lo) (array ! nat hi) = 0
      then Inr (array[nat (lo + 1) := array ! nat hi, nat hi := array ! nat (lo + 1)], Some (lo + 1))
      else Inr (array[nat lo := array ! nat hi, nat hi := array ! nat lo], Some lo))"
proof -
  from assms have rng: "[lo..hi - 1] = lo # [lo + 1..hi - 1]"
    by (simp add: upto_rec1)
  from assms have piv: "getitem array hi = Inr (array ! nat hi)"
    and alo: "getitem array lo = Inr (array ! nat lo)"
    by (simp_all add: getitem_def bind_err_def subscript_in_range)
  from assms have same: "exchange array lo lo = Inr array"
    by (simp add: exchange_in_range)
  from assms have e1: "exchange array (lo + 1) hi =
      Inr (array[nat (lo + 1) := array ! nat hi, nat hi := array ! nat (lo + 1)])"
    by (simp add: exchange_in_range)
  from assms have e0: "exchange array lo hi =
      Inr (array[nat lo := array ! nat hi, nat hi := array ! nat lo])"
    by (simp add: exchange_in_range)
  show ?thesis
    by (simp add: partition_def partition_body_def rng piv alo same e1 e0 bind_err_def Let_def)
qed

lemma partition_ok:
  assumes "0 \<le> lo" "lo < hi" "hi < int (length array)"
  shows "\<exists>array1 p. partition cmp array lo hi = Inr (array1, Some p) \<and>
           (p = lo \<or> p = lo + 1) \<and> mset array1 = mset array"
proof -
  from assms have "nat lo < length array" "nat (lo + 1) < length array" "nat hi < length array"
    by auto
  then show ?thesis
    by (simp add: partition_eq[OF assms] mset_exchanged)
qed

lemma quicksort_ok:
  "0 \<le> lo \<Longrightarrow> hi < int (length array) \<Longrightarrow>
   \<exists>array'. quicksort cmp array lo hi = Inr array' \<and> mset array' = mset array"
proof (induction cmp array lo hi rule: quicksort.induct)
  case (1 cmp array lo hi)
  show ?case
  proof (cases "lo < hi")
    case False
    then show ?thesis by (subst quicksort.simps) simp
  next
    case True
    from partition_ok[OF 1(3) True 1(4)] obtain array1 p where
      p: "partition cmp array lo hi = Inr (array1, Some p)" "p = lo \<or> p = lo + 1"
         "mset array1 = mset array"
      by blast
    from p(3) have len1: "length array1 = length array" by (rule mset_eq_length)
    have "p - 1 < int (length array1)" using p(2) True 1(4) len1 by auto
    from 1(1)[OF True p(1) refl refl 1(3) this] obtain array2 where
      a2: "quicksort cmp array1 lo (p - 1) = Inr array2" "mset array2 = mset array1"
      by blast
    from a2(2) have len2: "length array2 = length array1" by (rule mset_eq_length)
    have "0 \<le> p + 1" "hi < int (length array2)" using p(2) 1(3) 1(4) len1 len2 by auto
    from 1(2)[OF True p(1) refl refl a2(1) this] obtain array3 where
      a3: "quicksort cmp array2 (p + 1) hi = Inr array3" "mset array3 = mset array2"
      by blast
    have "quicksort cmp array lo hi = Inr array3"
      using True p(1) a2(1) a3(1) by (subst quicksort.simps) simp
    with a3(2) a2(2) p(3) show ?thesis by simp
  qed
qed

lemma quick_sort_ok: "\<exists>zs. quick_sort cmp xs = Inr zs \<and> mset zs = mset xs"
  unfolding quick_sort_def by (rule quicksort_ok) simp_all

section \<open>The example comparators\<close>

lemma three_way_cmp_standard: "three_way cmp_standard"
  by (simp add: three_way_def cmp_standard_def)

lemma contract_cmp_standard: "contract cmp_standard"
  unfolding contract_def
proof (intro conjI allI impI)
  show "three_way cmp_standard" by (rule three_way_cmp_standard)
next
  fix a b :: 'a
  show "cmp_standard b a = - cmp_standard a b" by (auto simp: cmp_standard_def)
next
  fix a b c :: 'a
  assume "cmp_standard a b \<noteq> 1" "cmp_standard b c \<noteq> 1"
  then have "a \<le> b" "b \<le> c" by (simp_all add: cmp_standard_def split: if_splits)
  then have "a \<le> c" by simp
  then show "cmp_standard a c \<noteq> 1" by (simp add: cmp_standard_def)
qed

lemma contract_by_first_component: "contract by_first_component"
  unfolding contract_def
proof (intro conjI allI impI)
  show "three_way by_first_component"
    by (simp add: three_way_def by_first_component_def cmp_standard_def)
next
  fix a b :: "int \<times> string"
  show "by_first_component b a = - by_first_component a b"
    using contract_flip[OF contract_cmp_standard, of "fst b" "fst a"]
    by (simp only: by_first_component_def)
next
  fix a b c :: "int \<times> string"
  assume "by_first_component a b \<noteq> 1" "by_first_component b c \<noteq> 1"
  then show "by_first_component a c \<noteq> 1"
    unfolding by_first_component_def by (rule contract_trans[OF contract_cmp_standard])
qed

lemma three_way_always_less: "three_way always_less"
  by (simp add: three_way_def always_less_def)

lemma quick_sorted_all_less:
  assumes "quick_sorted rnd cmp xs k = Some r"
  shows "\<not> (2 \<le> length xs \<and> (\<forall>a b. cmp a b = -1))"
proof (rule quick_sorted.raw_induct
        [where P = "\<lambda>rnd cmp xs k r. \<not> (2 \<le> length xs \<and> (\<forall>a b. cmp a b = -1))", OF _ assms])
  fix qs :: "(nat \<Rightarrow> nat) \<Rightarrow> 'a comparator \<Rightarrow> 'a list \<Rightarrow> nat \<Rightarrow> ('a list \<times> nat) option"
    and rnd cmp xs k r
  assume ih: "\<And>rnd cmp xs k r. qs rnd cmp xs k = Some r \<Longrightarrow> \<not> (2 \<le> length xs \<and> (\<forall>a b. cmp a b = -1))"
    and step: "(if length xs \<le> 1 then Some (xs, k)
      else let pivot = random_choice rnd k xs; b = fill_buckets cmp pivot xs
           in qs rnd cmp (less_than_pivot b) (Suc k) \<bind>
              (\<lambda>(less', k1). qs rnd cmp (greater_than_pivot b) k1 \<bind>
                 (\<lambda>(greater', k2). Some ((less' @ equal_to_pivot b) @ greater', k2)))) = Some r"
  show "\<not> (2 \<le> length xs \<and> (\<forall>a b. cmp a b = -1))"
  proof
    assume bad: "2 \<le> length xs \<and> (\<forall>a b. cmp a b = -1)"
    then have all: "filter (\<lambda>x. cmp x (random_choice rnd k xs) = -1) xs = xs" by simp
    from bad step obtain r1 where "qs rnd cmp xs (Suc k) = Some r1"
      by (auto simp: fill_buckets_eq Let_def bind_eq_Some_conv all)
    from ih[OF this] bad show False by blast
  qed
qed

section \<open>The store model against the value model\<close>

lemma extends_refl: "extends h h"
  by (simp add: extends_def)

lemma extends_length: "extends h h' \<Longrightarrow> length h \<le> length h'"
proof -
  assume "extends h h'"
  then have "length (take (length h) h') = length h" by (simp add: extends_def)
  then show ?thesis by (simp add: min_def split: if_splits)
qed

lemma extends_nth: "extends h h' \<Longrightarrow> a < length h \<Longrightarrow> h' ! a = h ! a"
  unfolding extends_def by (metis nth_take)

lemma extends_trans: "extends h g \<Longrightarrow> extends g k \<Longrightarrow> extends h k"
proof -
  assume hg: "extends h g" and gk: "extends g k"
  have "take (length h) k = take (length h) (take (length g) k)"
    using extends_length[OF hg] by (simp add: min_def)
  also have "\<dots> = take (length h) g" using gk by (simp add: extends_def)
  also have "\<dots> = h" using hg by (simp add: extends_def)
  finally show ?thesis by (simp add: extends_def)
qed

lemma extends_new_object: "extends h (fst (new_object h v))"
  by (simp add: extends_def new_object_def)

lemma extendsI:
  "length h \<le> length h' \<Longrightarrow> (\<And>a. a < length h \<Longrightarrow> h' ! a = h ! a) \<Longrightarrow> extends h h'"
  unfolding extends_def by (simp add: list_eq_iff_nth_eq)

lemma merged_body_h_frame:
  assumes "new_list < length (fst s)"
  shows "length (fst (merged_body_h cmp xs ys new_list s)) = length (fst s) \<and>
         (\<forall>a. a \<noteq> new_list \<longrightarrow> fst (merged_body_h cmp xs ys new_list s) ! a = fst s ! a)"
  by (cases s) (simp add: merged_body_h_def append_h_def Let_def)

lemma merged_body_h_sim:
  assumes "new_list < length (fst s)" "new_list \<noteq> xs" "new_list \<noteq> ys"
  shows "(fst (merged_body_h cmp xs ys new_list s) ! new_list, snd (merged_body_h cmp xs ys new_list s)) =
         merged_body cmp (fst s ! xs) (fst s ! ys) (fst s ! new_list, snd s)"
  using assms
  by (cases s) (simp add: merged_body_h_def merged_body_def append_h_def Let_def)


lemma merged_loop_h_sound:
  assumes "merged_loop_h cmp xs ys new_list s = Some r"
  shows "new_list < length (fst s) \<longrightarrow> new_list \<noteq> xs \<longrightarrow> new_list \<noteq> ys \<longrightarrow>
     length (fst r) = length (fst s) \<and> (\<forall>a. a \<noteq> new_list \<longrightarrow> fst r ! a = fst s ! a) \<and>
     merged_loop cmp (fst s ! xs) (fst s ! ys) (fst s ! new_list, snd s) =
       Some (fst r ! new_list, snd r)"
proof (rule merged_loop_h.raw_induct
    [where P = "\<lambda>cmp xs ys new_list s r.
       new_list < length (fst s) \<longrightarrow> new_list \<noteq> xs \<longrightarrow> new_list \<noteq> ys \<longrightarrow>
       length (fst r) = length (fst s) \<and> (\<forall>a. a \<noteq> new_list \<longrightarrow> fst r ! a = fst s ! a) \<and>
       merged_loop cmp (fst s ! xs) (fst s ! ys) (fst s ! new_list, snd s) =
         Some (fst r ! new_list, snd r)", OF _ assms])
  fix loop :: "'a comparator \<Rightarrow> ref \<Rightarrow> ref \<Rightarrow> ref \<Rightarrow> 'a merge_heap_state \<Rightarrow> 'a merge_heap_state option"
    and cmp xs ys new_list s r
  assume ih: "\<And>cmp xs ys new_list s r. loop cmp xs ys new_list s = Some r \<Longrightarrow>
       new_list < length (fst s) \<longrightarrow> new_list \<noteq> xs \<longrightarrow> new_list \<noteq> ys \<longrightarrow>
       length (fst r) = length (fst s) \<and> (\<forall>a. a \<noteq> new_list \<longrightarrow> fst r ! a = fst s ! a) \<and>
       merged_loop cmp (fst s ! xs) (fst s ! ys) (fst s ! new_list, snd s) =
         Some (fst r ! new_list, snd r)"
    and step: "(if fst (snd s) < length (fst s ! xs) \<and> snd (snd s) < length (fst s ! ys)
                then loop cmp xs ys new_list (merged_body_h cmp xs ys new_list s)
                else Some s) = Some r"
  show "new_list < length (fst s) \<longrightarrow> new_list \<noteq> xs \<longrightarrow> new_list \<noteq> ys \<longrightarrow>
       length (fst r) = length (fst s) \<and> (\<forall>a. a \<noteq> new_list \<longrightarrow> fst r ! a = fst s ! a) \<and>
       merged_loop cmp (fst s ! xs) (fst s ! ys) (fst s ! new_list, snd s) =
         Some (fst r ! new_list, snd r)"
  proof (intro impI)
    assume nl: "new_list < length (fst s)" and nx: "new_list \<noteq> xs" and ny: "new_list \<noteq> ys"
    let ?g = "fst (snd s) < length (fst s ! xs) \<and> snd (snd s) < length (fst s ! ys)"
    let ?b = "merged_body_h cmp xs ys new_list s"
    show "length (fst r) = length (fst s) \<and> (\<forall>a. a \<noteq> new_list \<longrightarrow> fst r ! a = fst s ! a) \<and>
       merged_loop cmp (fst s ! xs) (fst s ! ys) (fst s ! new_list, snd s) =
         Some (fst r ! new_list, snd r)"
    proof (cases ?g)
      case False
      with step have "r = s" by simp
      moreover from False
      have "merged_loop cmp (fst s ! xs) (fst s ! ys) (fst s ! new_list, snd s) =
              Some (fst s ! new_list, snd s)"
        by (subst merged_loop.simps) auto
      ultimately show ?thesis by simp
    next
      case True
      with step have run: "loop cmp xs ys new_list ?b = Some r" by simp
      note fr = merged_body_h_frame[OF nl, of cmp xs ys]
      from fr nl have nl': "new_list < length (fst ?b)" by simp
      from ih[OF run] nl' nx ny
      have r1: "length (fst r) = length (fst ?b)"
        and r2: "\<forall>a. a \<noteq> new_list \<longrightarrow> fst r ! a = fst ?b ! a"
        and r3: "merged_loop cmp (fst ?b ! xs) (fst ?b ! ys) (fst ?b ! new_list, snd ?b) =
                   Some (fst r ! new_list, snd r)"
        by blast+
      from fr nx ny have same: "fst ?b ! xs = fst s ! xs" "fst ?b ! ys = fst s ! ys"
        by auto
      have "merged_loop cmp (fst s ! xs) (fst s ! ys) (fst s ! new_list, snd s) =
            merged_loop cmp (fst s ! xs) (fst s ! ys)
              (merged_body cmp (fst s ! xs) (fst s ! ys) (fst s ! new_list, snd s))"
        using True by (subst merged_loop.simps) simp
      also have "\<dots> = Some (fst r ! new_list, snd r)"
        using r3 by (simp only: same merged_body_h_sim[OF nl nx ny, symmetric])
      finally have "merged_loop cmp (fst s ! xs) (fst s ! ys) (fst s ! new_list, snd s) =
            Some (fst r ! new_list, snd r)" .
      with r1 r2 fr show ?thesis by simp
    qed
  qed
qed

lemma merged_h_sound:
  assumes run: "merged_h cmp h xs ys = Some (h', r)" and xs: "xs < length h" and ys: "ys < length h"
  shows "extends h h' \<and> length h \<le> r \<and> r < length h' \<and>
         merged cmp (h ! xs) (h ! ys) = Some (h' ! r)"
proof -
  let ?h0 = "h @ [[]]" and ?nl = "length h"
  from run obtain h1 c1 c2 where
    loop: "merged_loop_h cmp xs ys ?nl (?h0, 0, 0) = Some (h1, c1, c2)"
    by (auto simp: merged_h_def new_object_def split: option.splits)
  from merged_loop_h_sound[OF loop] xs ys
  have len1: "length h1 = Suc (length h)"
    and keep: "\<forall>a. a \<noteq> ?nl \<longrightarrow> h1 ! a = ?h0 ! a"
    and pure: "merged_loop cmp (?h0 ! xs) (?h0 ! ys) (?h0 ! ?nl, 0, 0) = Some (h1 ! ?nl, c1, c2)"
    by auto
  from keep xs ys have hx: "h1 ! xs = h ! xs" and hy: "h1 ! ys = h ! ys"
    by (auto simp: nth_append)
  from pure xs ys have pure': "merged_loop cmp (h ! xs) (h ! ys) ([], 0, 0) = Some (h1 ! ?nl, c1, c2)"
    by (simp add: nth_append)
  let ?t1 = "drop c1 (h ! xs)" and ?t2 = "drop c2 (h ! ys)"
  let ?s1 = "h1 ! ?nl @ ?t1"
  from run loop have res: "h' = (((h1 @ [?t1]) @ [?s1]) @ [?t2]) @ [?s1 @ ?t2]"
    and r: "r = length h + 4"
    using len1 xs ys hx hy
    by (auto simp: merged_h_def new_object_def Let_def nth_append)
  have ext: "extends h h'"
  proof (rule extendsI)
    show "length h \<le> length h'" using res len1 by simp
    fix a assume a: "a < length h"
    with keep have "h1 ! a = h ! a" by (simp add: nth_append)
    with a len1 show "h' ! a = h ! a" by (simp add: res nth_append)
  qed
  have "h' ! r = ?s1 @ ?t2" using res r len1 by (simp add: nth_append)
  with pure' have "merged cmp (h ! xs) (h ! ys) = Some (h' ! r)"
    by (simp add: merged_def)
  with ext r res len1 show ?thesis by simp
qed


lemma merge_sorted_h_sound:
  assumes "merge_sorted_h cmp h xs = Some r"
  shows "xs < length h \<longrightarrow>
     extends h (fst r) \<and> length h \<le> snd r \<and> snd r < length (fst r) \<and>
     merge_sorted cmp (h ! xs) = Some (fst r ! snd r)"
proof (rule merge_sorted_h.raw_induct
    [where P = "\<lambda>cmp h xs r. xs < length h \<longrightarrow>
       extends h (fst r) \<and> length h \<le> snd r \<and> snd r < length (fst r) \<and>
       merge_sorted cmp (h ! xs) = Some (fst r ! snd r)", OF _ assms], goal_cases)
  case (1 sort cmp h xs r)
  note ih = 1(1) and step = 1(2)
  show ?case
  proof
    assume xs: "xs < length h"
    let ?v = "h ! xs"
    let ?h1 = "h @ [?v]"
    show "extends h (fst r) \<and> length h \<le> snd r \<and> snd r < length (fst r) \<and>
       merge_sorted cmp (h ! xs) = Some (fst r ! snd r)"
    proof (cases "length ?v \<le> 1")
      case True
      with step have "r = (?h1, length h)" by (simp add: new_object_def)
      moreover have "extends h ?h1" by (simp add: extends_def)
      ultimately show ?thesis using True by (simp add: merge_sorted_base)
    next
      case False
      let ?mid = "length ?v div 2"
      let ?h2 = "?h1 @ [take ?mid ?v]"
      let ?h3 = "?h2 @ [drop ?mid ?v]"
      let ?left = "Suc (length h)" and ?right = "Suc (Suc (length h))"
      from step False obtain h4 lmerge h5 rmerge where
        l: "sort cmp ?h3 ?left = Some (h4, lmerge)" and
        r: "sort cmp h4 ?right = Some (h5, rmerge)" and
        m: "merged_h cmp h5 lmerge rmerge = Some r"
        by (auto simp: new_object_def Let_def nth_append bind_eq_Some_conv)
      have e3: "extends h ?h3" by (simp add: extends_def)
      from ih[OF l] have e4: "extends ?h3 h4" and lf: "lmerge < length h4"
        and lv: "merge_sorted cmp (take ?mid ?v) = Some (h4 ! lmerge)"
        by (simp_all add: nth_append)
      from extends_length[OF e4] have len4: "length h + 3 \<le> length h4" by simp
      from extends_nth[OF e4, of ?right] have h4r: "h4 ! ?right = drop ?mid ?v"
        by (simp add: nth_append)
      from ih[OF r] len4 have e5: "extends h4 h5" and rf: "rmerge < length h5"
        and rv: "merge_sorted cmp (drop ?mid ?v) = Some (h5 ! rmerge)"
        by (simp_all add: h4r)
      from extends_length[OF e5] lf have lf5: "lmerge < length h5" by simp
      from extends_nth[OF e5 lf] lv have lv5: "merge_sorted cmp (take ?mid ?v) = Some (h5 ! lmerge)"
        by simp
      obtain h' q where rq: "r = (h', q)" by (cases r)
      from merged_h_sound[OF m[unfolded rq] lf5 rf]
      have e': "extends h5 h'" and q: "length h5 \<le> q" "q < length h'"
        and mv: "merged cmp (h5 ! lmerge) (h5 ! rmerge) = Some (h' ! q)"
        by blast+
      have "merge_sorted cmp ?v = Some (h' ! q)"
        using merge_sorted_step[OF False, of cmp "h5 ! lmerge" "h5 ! rmerge"] lv5 rv mv
        by (simp add: split_left_def split_right_def)
      moreover have "extends h h'"
        using e3 e4 e5 e' by (blast intro: extends_trans)
      moreover have "length h \<le> q"
        using q(1) extends_length[OF e5] len4 by simp
      ultimately show ?thesis using q(2) by (simp add: rq)
    qed
  qed
qed


lemma bucket_step_h_cells:
  assumes "lr < length h" "gr < length h" "er < length h" "lr \<noteq> gr" "lr \<noteq> er" "gr \<noteq> er"
  shows "length (bucket_step_h cmp p lr gr er h x) = length h"
    and "a \<noteq> lr \<Longrightarrow> a \<noteq> gr \<Longrightarrow> a \<noteq> er \<Longrightarrow> bucket_step_h cmp p lr gr er h x ! a = h ! a"
    and "bucket_step_h cmp p lr gr er h x ! lr = h ! lr @ (if cmp x p = -1 then [x] else [])"
    and "bucket_step_h cmp p lr gr er h x ! gr = h ! gr @ (if cmp x p = 1 then [x] else [])"
    and "bucket_step_h cmp p lr gr er h x ! er = h ! er @ (if cmp x p = 0 then [x] else [])"
  using assms by (simp_all add: bucket_step_h_def append_h_def Let_def)

lemma foldl_bucket_step_h:
  assumes "lr \<noteq> gr" "lr \<noteq> er" "gr \<noteq> er"
  shows "lr < length h \<Longrightarrow> gr < length h \<Longrightarrow> er < length h \<Longrightarrow>
    length (foldl (bucket_step_h cmp p lr gr er) h items) = length h \<and>
    (\<forall>a. a \<noteq> lr \<longrightarrow> a \<noteq> gr \<longrightarrow> a \<noteq> er \<longrightarrow>
         foldl (bucket_step_h cmp p lr gr er) h items ! a = h ! a) \<and>
    foldl (bucket_step_h cmp p lr gr er) h items ! lr = h ! lr @ filter (\<lambda>x. cmp x p = -1) items \<and>
    foldl (bucket_step_h cmp p lr gr er) h items ! gr = h ! gr @ filter (\<lambda>x. cmp x p = 1) items \<and>
    foldl (bucket_step_h cmp p lr gr er) h items ! er = h ! er @ filter (\<lambda>x. cmp x p = 0) items"
proof (induction items arbitrary: h)
  case Nil
  show ?case by simp
next
  case (Cons x items)
  note c = bucket_step_h_cells[OF Cons.prems assms, where cmp = cmp and p = p and x = x]
  let ?h = "bucket_step_h cmp p lr gr er h x"
  from c(1) Cons.prems have "lr < length ?h" "gr < length ?h" "er < length ?h" by simp_all
  from Cons.IH[OF this] c(2) show ?case
    by (simp add: c(1) c(3) c(4) c(5))
qed

lemma quick_sorted_h_sound:
  assumes "quick_sorted_h rnd cmp h xs k = Some r"
  shows "xs < length h \<longrightarrow>
     extends h (fst (fst r)) \<and> length h \<le> snd (fst r) \<and> snd (fst r) < length (fst (fst r)) \<and>
     quick_sorted rnd cmp (h ! xs) k = Some (fst (fst r) ! snd (fst r), snd r)"
proof (rule quick_sorted_h.raw_induct
    [where P = "\<lambda>rnd cmp h xs k r. xs < length h \<longrightarrow>
       extends h (fst (fst r)) \<and> length h \<le> snd (fst r) \<and> snd (fst r) < length (fst (fst r)) \<and>
       quick_sorted rnd cmp (h ! xs) k = Some (fst (fst r) ! snd (fst r), snd r)", OF _ assms],
    goal_cases)
  case (1 sort rnd cmp h xs k r)
  note ih = 1(1) and step = 1(2)
  show ?case
  proof
    assume xs: "xs < length h"
    let ?v = "h ! xs"
    let ?n = "length h"
    let ?h1 = "h @ [?v]"
    show "extends h (fst (fst r)) \<and> length h \<le> snd (fst r) \<and> snd (fst r) < length (fst (fst r)) \<and>
       quick_sorted rnd cmp (h ! xs) k = Some (fst (fst r) ! snd (fst r), snd r)"
    proof (cases "length ?v \<le> 1")
      case True
      with step have "r = ((?h1, ?n), k)" by (simp add: new_object_def)
      moreover have "extends h ?h1" by (simp add: extends_def)
      ultimately show ?thesis using True by (simp add: quick_sorted_base)
    next
      case False
      let ?h4 = "h @ [?v, [], [], []]"
      let ?lr = "Suc ?n" and ?gr = "Suc (Suc ?n)" and ?er = "Suc (Suc (Suc ?n))"
      let ?p = "random_choice rnd k ?v"
      let ?h5 = "foldl (bucket_step_h cmp ?p ?lr ?gr ?er) ?h4 ?v"
      from step False obtain h6 l' k1 h7 g' k2 where
        l: "sort rnd cmp ?h5 ?lr (Suc k) = Some ((h6, l'), k1)" and
        g: "sort rnd cmp h6 ?gr k1 = Some ((h7, g'), k2)" and
        r: "r = (((h7 @ [h7 ! l' @ h7 ! ?er]) @ [(h7 @ [h7 ! l' @ h7 ! ?er]) ! length h7 @
                   (h7 @ [h7 ! l' @ h7 ! ?er]) ! g'], Suc (length h7)), k2)"
        by (auto simp: new_object_def Let_def nth_append bind_eq_Some_conv)
      have f: "length ?h5 = ?n + 4"
        "\<And>a. a < ?n \<Longrightarrow> ?h5 ! a = h ! a"
        "?h5 ! ?lr = filter (\<lambda>x. cmp x ?p = -1) ?v"
        "?h5 ! ?gr = filter (\<lambda>x. cmp x ?p = 1) ?v"
        "?h5 ! ?er = filter (\<lambda>x. cmp x ?p = 0) ?v"
        using foldl_bucket_step_h[of ?lr ?gr ?er ?h4 cmp ?p ?v]
        by (simp_all add: nth_append)
      have e5: "extends h ?h5"
      proof (rule extendsI)
        show "length h \<le> length ?h5" by (simp only: f(1))
        show "?h5 ! a = h ! a" if "a < length h" for a using that by (rule f(2))
      qed
      from ih[OF l] f(1) have e6: "extends ?h5 h6" and lf: "l' < length h6"
        and lv: "quick_sorted rnd cmp (?h5 ! ?lr) (Suc k) = Some (h6 ! l', k1)"
        by simp_all
      from extends_length[OF e6] f(1) have len6: "?n + 4 \<le> length h6" by simp
      from extends_nth[OF e6, of ?gr] f(1) have h6g: "h6 ! ?gr = ?h5 ! ?gr" by simp
      from extends_nth[OF e6, of ?er] f(1) have h6e: "h6 ! ?er = ?h5 ! ?er" by simp
      from ih[OF g] len6 have e7: "extends h6 h7" and gf: "g' < length h7"
        and gv: "quick_sorted rnd cmp (h6 ! ?gr) k1 = Some (h7 ! g', k2)"
        by simp_all
      from extends_length[OF e7] len6 have len7: "?n + 4 \<le> length h7" by simp
      from extends_nth[OF e7 lf] have h7l: "h7 ! l' = h6 ! l'" .
      from extends_nth[OF e7, of ?er] len6 h6e have h7e: "h7 ! ?er = ?h5 ! ?er" by simp
      let ?out = "(h6 ! l' @ filter (\<lambda>x. cmp x ?p = 0) ?v) @ h7 ! g'"
      have pure: "quick_sorted rnd cmp ?v k = Some (?out, k2)"
        using lv gv by (simp add: quick_sorted_step[OF False] f(3) h6g f(4))
      have out: "fst (fst r) ! snd (fst r) = ?out"
        using gf by (simp add: r nth_append h7l h7e f(5))
      have "extends h7 (fst (fst r))" by (simp add: r extends_def)
      with e5 e6 e7 have "extends h (fst (fst r))" by (blast intro: extends_trans)
      moreover have "length h \<le> snd (fst r)" "snd (fst r) < length (fst (fst r))"
        using len7 by (simp_all add: r)
      ultimately show ?thesis using pure out by (simp add: r)
    qed
  qed
qed


lemma merged_loop_h_complete:
  assumes "merged_loop cmp X Y st = Some r"
  shows "\<forall>h. X = h ! xs \<and> Y = h ! ys \<and> fst st = h ! new_list \<and> new_list < length h \<and>
             new_list \<noteq> xs \<and> new_list \<noteq> ys \<longrightarrow>
           (\<exists>r'. merged_loop_h cmp xs ys new_list (h, snd st) = Some r')"
proof (rule merged_loop.raw_induct
    [where P = "\<lambda>cmp X Y st r.
       \<forall>h. X = h ! xs \<and> Y = h ! ys \<and> fst st = h ! new_list \<and> new_list < length h \<and>
             new_list \<noteq> xs \<and> new_list \<noteq> ys \<longrightarrow>
           (\<exists>r'. merged_loop_h cmp xs ys new_list (h, snd st) = Some r')", OF _ assms],
    goal_cases)
  case (1 loop cmp X Y st r)
  note ih = 1(1) and step = 1(2)
  show ?case
  proof (intro allI impI)
    fix h
    assume inv: "X = h ! xs \<and> Y = h ! ys \<and> fst st = h ! new_list \<and> new_list < length h \<and>
             new_list \<noteq> xs \<and> new_list \<noteq> ys"
    let ?s = "(h, snd st)"
    let ?b = "merged_body_h cmp xs ys new_list ?s"
    from inv have st: "st = (h ! new_list, snd st)" by (cases st) simp
    show "\<exists>r'. merged_loop_h cmp xs ys new_list ?s = Some r'"
    proof (cases "fst (snd st) < length X \<and> snd (snd st) < length Y")
      case False
      with inv show ?thesis by (subst merged_loop_h.simps) auto
    next
      case True
      with step have run: "loop cmp X Y (merged_body cmp X Y st) = Some r" by simp
      from inv have nl: "new_list < length (fst ?s)" and nx: "new_list \<noteq> xs" and ny: "new_list \<noteq> ys"
        by simp_all
      note fr = merged_body_h_frame[OF nl, of cmp xs ys]
      from merged_body_h_sim[OF nl nx ny, of cmp] inv st
      have sim: "(fst ?b ! new_list, snd ?b) = merged_body cmp X Y st" by simp
      then have b: "?b = (fst ?b, snd (merged_body cmp X Y st))"
        by (metis prod.collapse snd_conv)
      from sim have f1: "fst (merged_body cmp X Y st) = fst ?b ! new_list"
        by (metis fst_conv)
      from fr nx ny inv have "X = fst ?b ! xs" "Y = fst ?b ! ys" "new_list < length (fst ?b)"
        by auto
      with ih[OF run] f1 nx ny
      obtain r' where "merged_loop_h cmp xs ys new_list (fst ?b, snd (merged_body cmp X Y st)) = Some r'"
        by blast
      with b have rb: "merged_loop_h cmp xs ys new_list ?b = Some r'" by simp
      have "merged_loop_h cmp xs ys new_list ?s = merged_loop_h cmp xs ys new_list ?b"
        using True inv by (subst merged_loop_h.simps) simp
      with rb have "merged_loop_h cmp xs ys new_list ?s = Some r'" by (simp only:)
      then show ?thesis by (rule exI)
    qed
  qed
qed

lemma merged_h_complete:
  assumes "merged cmp (h ! xs) (h ! ys) = Some out" "xs < length h" "ys < length h"
  shows "\<exists>r. merged_h cmp h xs ys = Some r"
proof -
  from assms(1) obtain st where
    loop: "merged_loop cmp (h ! xs) (h ! ys) ([], 0, 0) = Some st"
    by (auto simp: merged_def split: option.splits)
  have "h ! xs = (h @ [[]]) ! xs \<and> h ! ys = (h @ [[]]) ! ys \<and>
        fst ([], 0 :: nat, 0 :: nat) = (h @ [[]]) ! length h \<and> length h < length (h @ [[]]) \<and>
        length h \<noteq> xs \<and> length h \<noteq> ys"
    using assms(2,3) by (simp add: nth_append)
  with merged_loop_h_complete[OF loop, of xs ys "length h", rule_format, of "h @ [[]]"]
  obtain r' where "merged_loop_h cmp xs ys (length h) (h @ [[]], 0, 0) = Some r'"
    by auto
  then show ?thesis
    by (cases r') (simp add: merged_h_def new_object_def Let_def split: prod.splits)
qed

lemma merge_sorted_h_complete:
  "merge_sorted cmp v = Some out \<Longrightarrow> xs < length h \<Longrightarrow> h ! xs = v \<Longrightarrow>
   \<exists>r. merge_sorted_h cmp h xs = Some r"
proof (induction cmp v arbitrary: out h xs rule: merge_sorted.induct)
  case (1 cmp v)
  show ?case
  proof (cases "length v \<le> 1")
    case True
    with 1(4,5) show ?thesis
      by (subst merge_sorted_h.simps) (simp add: new_object_def)
  next
    case False
    let ?mid = "length v div 2"
    let ?h3 = "h @ [v, take ?mid v, drop ?mid v]"
    let ?left = "Suc (length h)" and ?right = "Suc (Suc (length h))"
    from 1(3) False obtain l r where
      pl: "merge_sorted cmp (split_left v) = Some l" and
      pr: "merge_sorted cmp (split_right v) = Some r" and
      pm: "merged cmp l r = Some out"
      by (subst (asm) merge_sorted.simps) (auto split: option.splits)
    have "?left < length ?h3" "?h3 ! ?left = split_left v"
      by (simp_all add: nth_append split_left_def)
    from 1(1)[OF False pl this] obtain h4 lm where
      hl: "merge_sorted_h cmp ?h3 ?left = Some (h4, lm)" by auto
    from merge_sorted_h_sound[OF hl]
    have e4: "extends ?h3 h4" and lf: "lm < length h4" and lv: "h4 ! lm = l"
      using pl by (simp_all add: nth_append split_left_def)
    from extends_length[OF e4] have len4: "length h + 3 \<le> length h4" by simp
    from extends_nth[OF e4, of ?right] have "h4 ! ?right = split_right v"
      by (simp add: nth_append split_right_def)
    with 1(2)[OF False pl pr, of ?right h4] len4 obtain h5 rm where
      hr: "merge_sorted_h cmp h4 ?right = Some (h5, rm)" by auto
    from merge_sorted_h_sound[OF hr] len4 \<open>h4 ! ?right = split_right v\<close> pr
    have e5: "extends h4 h5" and rf: "rm < length h5" and rv: "h5 ! rm = r"
      by simp_all
    from extends_length[OF e5] lf have lf5: "lm < length h5" by simp
    from extends_nth[OF e5 lf] lv have lv5: "h5 ! lm = l" by simp
    from merged_h_complete[of cmp h5 lm rm out] pm lv5 rv lf5 rf
    obtain res where "merged_h cmp h5 lm rm = Some res" by auto
    with hl hr False 1(4,5) show ?thesis
      by (subst merge_sorted_h.simps) (simp add: new_object_def Let_def nth_append)
  qed
qed


lemma quick_sorted_h_complete:
  assumes "quick_sorted rnd cmp v k = Some r"
  shows "\<forall>h xs. xs < length h \<and> h ! xs = v \<longrightarrow>
           (\<exists>r'. quick_sorted_h rnd cmp h xs k = Some r' \<and> snd r' = snd r)"
proof (rule quick_sorted.raw_induct
    [where P = "\<lambda>rnd cmp v k r. \<forall>h xs. xs < length h \<and> h ! xs = v \<longrightarrow>
           (\<exists>r'. quick_sorted_h rnd cmp h xs k = Some r' \<and> snd r' = snd r)", OF _ assms],
    goal_cases)
  case (1 sort rnd cmp v k r)
  note ih = 1(1) and step = 1(2)
  show ?case
  proof (intro allI impI)
    fix h :: "'a heap" and xs
    assume inv: "xs < length h \<and> h ! xs = v"
    let ?n = "length h"
    show "\<exists>r'. quick_sorted_h rnd cmp h xs k = Some r' \<and> snd r' = snd r"
    proof (cases "length v \<le> 1")
      case True
      with step inv show ?thesis
        by (subst quick_sorted_h.simps) (auto simp: new_object_def)
    next
      case False
      let ?h4 = "h @ [v, [], [], []]"
      let ?lr = "Suc ?n" and ?gr = "Suc (Suc ?n)" and ?er = "Suc (Suc (Suc ?n))"
      let ?p = "random_choice rnd k v"
      let ?h5 = "foldl (bucket_step_h cmp ?p ?lr ?gr ?er) ?h4 v"
      let ?L = "filter (\<lambda>x. cmp x ?p = -1) v" and ?G = "filter (\<lambda>x. cmp x ?p = 1) v"
      from step False obtain l k1 g k2 where
        pl: "sort rnd cmp ?L (Suc k) = Some (l, k1)" and
        pg: "sort rnd cmp ?G k1 = Some (g, k2)" and
        r: "snd r = k2"
        by (auto simp: fill_buckets_eq Let_def bind_eq_Some_conv)
      have f: "length ?h5 = ?n + 4" "?h5 ! ?lr = ?L" "?h5 ! ?gr = ?G"
        using foldl_bucket_step_h[of ?lr ?gr ?er ?h4 cmp ?p v]
        by (simp_all add: nth_append)
      from ih[OF pl, rule_format, of ?lr ?h5] f obtain h6 l' where
        hl: "quick_sorted_h rnd cmp ?h5 ?lr (Suc k) = Some ((h6, l'), k1)"
        by auto
      from quick_sorted_h_sound[OF hl] f(1) have e6: "extends ?h5 h6" by simp
      from extends_length[OF e6] f(1) have len6: "?n + 4 \<le> length h6" by simp
      from extends_nth[OF e6, of ?gr] f have h6g: "h6 ! ?gr = ?G" by simp
      from ih[OF pg, rule_format, of ?gr h6] len6 h6g obtain h7 g' where
        hg: "quick_sorted_h rnd cmp h6 ?gr k1 = Some ((h7, g'), k2)"
        by auto
      from hl hg False inv r show ?thesis
        by (subst quick_sorted_h.simps)
           (simp add: new_object_def Let_def nth_append split: prod.splits)
    qed
  qed
qed

lemma exchange_h_eq:
  "array < length h \<Longrightarrow>
   exchange_h h array i j = map_sum id (\<lambda>a. h[array := a]) (exchange (h ! array) i j)"
  by (auto simp: exchange_h_def exchange_def getitem_h_def setitem_h_def bind_err_def
           split: sum.splits)

lemma partition_body_h_eq:
  "array < length (fst s) \<Longrightarrow>
   partition_body_h cmp array hi pivot j s =
     map_sum id (\<lambda>(a, i). ((fst s)[array := a], i))
       (partition_body cmp hi pivot j (fst s ! array, snd s))"
  by (cases s)
     (auto simp: partition_body_h_def partition_body_def getitem_h_def exchange_h_eq bind_err_def
                 Let_def split: sum.splits)

lemma partition_h_eq:
  "array < length h \<Longrightarrow>
   partition_h cmp h array lo hi =
     map_sum id (\<lambda>(a, p). (h[array := a], p)) (partition cmp (h ! array) lo hi)"
  by (auto simp: partition_h_def partition_def getitem_h_def partition_body_h_eq bind_err_def
                 Let_def split: sum.splits list.splits)

lemma quicksort_h_eq:
  "array < length h \<Longrightarrow>
   quicksort_h cmp h array lo hi =
     map_sum id (\<lambda>a. (h[array := a], array)) (quicksort cmp (h ! array) lo hi)"
proof (induction cmp h array lo hi rule: quicksort_h.induct)
  case (1 cmp h array lo hi)
  show ?case
  proof (cases "lo < hi")
    case False
    then show ?thesis
      by (subst quicksort_h.simps, subst quicksort.simps) simp
  next
    case True
    note ph = partition_h_eq[OF 1(3), of cmp lo hi]
    show ?thesis
    proof (cases "partition cmp (h ! array) lo hi")
      case (Inl e)
      with ph True show ?thesis
        by (subst quicksort_h.simps, subst quicksort.simps) simp
    next
      case (Inr ap)
      obtain a1 po where ap: "ap = (a1, po)" by (cases ap)
      show ?thesis
      proof (cases po)
        case None
        with ph True Inr ap show ?thesis
          by (subst quicksort_h.simps, subst quicksort.simps) simp
      next
        case (Some p)
        let ?h1 = "h[array := a1]"
        from ph Inr ap Some have ph': "partition_h cmp h array lo hi = Inr (?h1, Some p)"
          by simp
        from 1(3) have a1: "array < length ?h1" "?h1 ! array = a1" by simp_all
        from 1(1)[OF True ph' refl refl a1(1)]
        have q1: "quicksort_h cmp ?h1 array lo (p - 1) =
                    map_sum id (\<lambda>a. (h[array := a], array)) (quicksort cmp a1 lo (p - 1))"
          by (simp add: a1(2) id_def)
        show ?thesis
        proof (cases "quicksort cmp a1 lo (p - 1)")
          case (Inl e)
          with q1 ph' True Inr ap Some show ?thesis
            by (subst quicksort_h.simps, subst quicksort.simps) simp
        next
          case (Inr a2)
          let ?h2 = "h[array := a2]"
          from q1 Inr have q1': "quicksort_h cmp ?h1 array lo (p - 1) = Inr (?h2, array)"
            by simp
          from 1(3) have a2: "array < length ?h2" "?h2 ! array = a2" by simp_all
          from 1(2)[OF True ph' refl refl q1' refl a2(1)]
          have q2: "quicksort_h cmp ?h2 array (p + 1) hi =
                    map_sum id (\<lambda>a. (h[array := a], array)) (quicksort cmp a2 (p + 1) hi)"
            by (simp add: a2(2) id_def)
          note pp = \<open>partition cmp (h ! array) lo hi = Inr ap\<close>
          show ?thesis
          proof (cases "quicksort cmp a2 (p + 1) hi")
            case (Inl e)
            with q1' q2 ph' True \<open>quicksort cmp a1 lo (p - 1) = Inr a2\<close> pp ap Some
            show ?thesis
              by (subst quicksort_h.simps, subst quicksort.simps) simp
          next
            case (Inr a3)
            with q1' q2 ph' True \<open>quicksort cmp a1 lo (p - 1) = Inr a2\<close> pp ap Some
            show ?thesis
              by (subst quicksort_h.simps, subst quicksort.simps) simp
          qed
        qed
      qed
    qed
  qed
qed

lemma quick_sort_h_eq:
  "xs < length h \<Longrightarrow>
   quick_sort_h cmp h xs = map_sum id (\<lambda>zs. (h[xs := zs], xs)) (quick_sort cmp (h ! xs))"
  by (simp add: quick_sort_h_def quick_sort_def quicksort_h_eq)

section \<open>The claims\<close>

text \<open>
  C1.  The specification promises that after \<^verbatim>\<open>quick_sort(xs, cmp)\<close> the whole list is
  sorted under the comparator, and in particular that \<open>[5,3,1,4,2]\<close> becomes
  \<open>[1,2,3,4,5]\<close>.  The code does not do that: \<^verbatim>\<open>_partition\<close> returns at the end of the
  first pass of its loop, so only \<open>array[lo]\<close> is ever compared with the pivot.  On
  \<open>[5,3,1,4,2]\<close> with \<^verbatim>\<open>cmp_standard\<close> no subscript fails, the list ends as
  \<open>[2,3,5,1,4]\<close>, and \<open>5\<close> stands before \<open>1\<close>.
\<close>

theorem quick_sort_leaves_unsorted:
  "quick_sort cmp_standard [5, 3, 1, 4, 2 :: int] = Inr [2, 3, 5, 1, 4] \<and>
   \<not> sorted_by cmp_standard [2, 3, 5, 1, 4 :: int]"
  by code_simp

text \<open>
  C2, as stated, asks only for comparator results in \<open>{-1,0,1}\<close>.  That is not enough for
  \<^verbatim>\<open>quick_sorted\<close> to return at all: under a comparator that answers \<open>-1\<close> for every
  pair, the pivot falls into its own "less" bucket together with everything else, and the
  call on \<open>[1, 2]\<close> recurses on \<open>[1, 2]\<close> for ever.
\<close>

theorem quick_sorted_never_returns:
  "three_way always_less \<and> quick_sorted first_index always_less [1, 2] 0 = None"
proof -
  have ne: "quick_sorted first_index always_less [1, 2] 0 \<noteq> Some r" for r
    using quick_sorted_all_less[of first_index always_less "[1, 2]" 0 r]
    by (auto simp: always_less_def)
  have "quick_sorted first_index always_less [1, 2] 0 = None"
  proof (cases "quick_sorted first_index always_less [1, 2] 0")
    case (Some r)
    with ne show ?thesis by blast
  qed simp
  with three_way_always_less show ?thesis by blast
qed

text \<open>
  C2, amended.  For every list and every comparator with results in \<open>{-1,0,1}\<close>:
  \<^verbatim>\<open>merge_sorted\<close> returns a list with the multiset of the input; \<^verbatim>\<open>quick_sort\<close> raises
  nothing and leaves a list with the multiset of the input; whenever \<^verbatim>\<open>quick_sorted\<close>
  returns, for whatever pivots were drawn, its output has the multiset of the input; and it
  does return, for all pivots, when every element of the list compares equal to itself.
\<close>

theorem sorts_preserve_multiset:
  assumes "three_way cmp"
  shows "(\<exists>ys. merge_sorted cmp xs = Some ys \<and> mset ys = mset xs) \<and>
         (\<exists>zs. quick_sort cmp xs = Inr zs \<and> mset zs = mset xs) \<and>
         (\<forall>rnd k ys k'. quick_sorted rnd cmp xs k = Some (ys, k') \<longrightarrow> mset ys = mset xs) \<and>
         ((\<forall>x\<in>set xs. cmp x x = 0) \<longrightarrow>
            (\<forall>rnd k. \<exists>ys k'. quick_sorted rnd cmp xs k = Some (ys, k')))"
proof (intro conjI)
  show "\<exists>ys. merge_sorted cmp xs = Some ys \<and> mset ys = mset xs"
    using assms by (rule merge_sorted_mset)
  show "\<exists>zs. quick_sort cmp xs = Inr zs \<and> mset zs = mset xs"
    by (rule quick_sort_ok)
  show "\<forall>rnd k ys k'. quick_sorted rnd cmp xs k = Some (ys, k') \<longrightarrow> mset ys = mset xs"
    using quick_sorted_mset assms by fastforce
  show "(\<forall>x\<in>set xs. cmp x x = 0) \<longrightarrow>
          (\<forall>rnd k. \<exists>ys k'. quick_sorted rnd cmp xs k = Some (ys, k'))"
    using quick_sorted_returns by blast
qed

theorem sorts_preserve_multiset_witness:
  "three_way (cmp_standard :: int comparator) \<and>
   (\<exists>ys. merge_sorted cmp_standard [5, 3, 1, 4, 2 :: int] = Some ys \<and> mset ys = mset [5, 3, 1, 4, 2]) \<and>
   (\<exists>zs. quick_sort cmp_standard [5, 3, 1, 4, 2 :: int] = Inr zs \<and> mset zs = mset [5, 3, 1, 4, 2]) \<and>
   quick_sorted first_index cmp_standard [5, 3, 1, 4, 2 :: int] 0 = Some ([1, 2, 3, 4, 5], 3) \<and>
   mset [1, 2, 3, 4, 5 :: int] = mset [5, 3, 1, 4, 2] \<and>
   (\<exists>ys k'. quick_sorted first_index cmp_standard [5, 3, 1, 4, 2 :: int] 0 = Some (ys, k'))"
proof -
  have tw: "three_way (cmp_standard :: int comparator)" by (rule three_way_cmp_standard)
  have run: "quick_sorted first_index cmp_standard [5, 3, 1, 4, 2 :: int] 0 = Some ([1, 2, 3, 4, 5], 3)"
    by code_simp
  note inst = sorts_preserve_multiset[OF tw, of "[5, 3, 1, 4, 2]"]
  from inst have a: "\<exists>ys. merge_sorted cmp_standard [5, 3, 1, 4, 2 :: int] = Some ys \<and> mset ys = mset [5, 3, 1, 4, 2]"
    by blast
  from inst have b: "\<exists>zs. quick_sort cmp_standard [5, 3, 1, 4, 2 :: int] = Inr zs \<and> mset zs = mset [5, 3, 1, 4, 2]"
    by blast
  from inst run have c: "mset [1, 2, 3, 4, 5 :: int] = mset [5, 3, 1, 4, 2]"
    by blast
  from tw a b run c show ?thesis by blast
qed

text \<open>
  C3.  Under a comparator that keeps the contract, \<^verbatim>\<open>merge_sorted\<close> returns, and
  \<^verbatim>\<open>quick_sorted\<close> returns for every sequence of pivots, a list in which no adjacent pair
  \<open>(x, y)\<close> has \<open>cmp x y = 1\<close>; and \<^verbatim>\<open>merge_sorted([5,3,1,4,2], cmp_standard)\<close> is
  \<open>[1,2,3,4,5]\<close>.
\<close>

theorem copying_sorts_are_sorted:
  assumes "contract cmp"
  shows "(\<exists>ys. merge_sorted cmp xs = Some ys \<and> sorted_by cmp ys) \<and>
         (\<forall>rnd k. \<exists>ys k'. quick_sorted rnd cmp xs k = Some (ys, k') \<and> sorted_by cmp ys) \<and>
         merge_sorted cmp_standard [5, 3, 1, 4, 2 :: int] = Some [1, 2, 3, 4, 5]"
proof (intro conjI allI)
  from merge_sorted_sorted_stable[OF assms, of xs]
  show "\<exists>ys. merge_sorted cmp xs = Some ys \<and> sorted_by cmp ys"
    by (auto simp: sorted_by_iff_sorted_wrt[OF assms])
next
  fix rnd k
  from quick_sorted_contract[OF assms, of rnd xs k]
  show "\<exists>ys k'. quick_sorted rnd cmp xs k = Some (ys, k') \<and> sorted_by cmp ys"
    by (auto simp: sorted_by_iff_sorted_wrt[OF assms])
next
  show "merge_sorted cmp_standard [5, 3, 1, 4, 2 :: int] = Some [1, 2, 3, 4, 5]"
    by code_simp
qed

theorem copying_sorts_are_sorted_witness:
  "contract (cmp_standard :: int comparator) \<and>
   (\<exists>ys. merge_sorted cmp_standard [5, 3, 1, 4, 2 :: int] = Some ys \<and> sorted_by cmp_standard ys) \<and>
   (\<forall>rnd k. \<exists>ys k'. quick_sorted rnd cmp_standard [5, 3, 1, 4, 2 :: int] k = Some (ys, k') \<and>
      sorted_by cmp_standard ys)"
  using copying_sorts_are_sorted[OF contract_cmp_standard, of "[5, 3, 1, 4, 2 :: int]"]
    contract_cmp_standard[where 'a = int]
  by blast

text \<open>
  C4.  With comparator results in \<open>{-1,0,1}\<close>, \<^verbatim>\<open>_merged\<close> returns the merge the
  specification describes: on "less" the left element is emitted and the left cursor
  advances, on "greater" the right element and the right cursor, on "equal" the left element
  and then the right one and both cursors, and what is left of the unexhausted input follows
  unchanged.  The output is as long as the two inputs together, and
  \<^verbatim>\<open>_merged([1,3,5], [2,4,6])\<close> is \<open>[1,2,3,4,5,6]\<close>.  (This holds whether or not the
  inputs are sorted.)
\<close>

theorem merged_follows_spec:
  assumes "three_way cmp"
  shows "merged cmp xs ys = Some (merge_spec cmp xs ys) \<and>
         length (merge_spec cmp xs ys) = length xs + length ys \<and>
         merged_body cmp xs ys (new_list, counter1, counter2) =
           (if cmp (xs ! counter1) (ys ! counter2) = -1
              then (new_list @ [xs ! counter1], counter1 + 1, counter2)
            else if cmp (xs ! counter1) (ys ! counter2) = 1
              then (new_list @ [ys ! counter2], counter1, counter2 + 1)
            else (new_list @ [xs ! counter1, ys ! counter2], counter1 + 1, counter2 + 1)) \<and>
         merged cmp_standard [1, 3, 5] [2, 4, 6 :: int] = Some [1, 2, 3, 4, 5, 6]"
proof (intro conjI)
  show "merged cmp xs ys = Some (merge_spec cmp xs ys)"
    using assms by (rule merged_eq_spec)
  show "length (merge_spec cmp xs ys) = length xs + length ys"
    by (rule length_merge_spec)
  from assms have "cmp (xs ! counter1) (ys ! counter2) = -1 \<or>
      cmp (xs ! counter1) (ys ! counter2) = 0 \<or> cmp (xs ! counter1) (ys ! counter2) = 1"
    unfolding three_way_def by blast
  then show "merged_body cmp xs ys (new_list, counter1, counter2) =
           (if cmp (xs ! counter1) (ys ! counter2) = -1
              then (new_list @ [xs ! counter1], counter1 + 1, counter2)
            else if cmp (xs ! counter1) (ys ! counter2) = 1
              then (new_list @ [ys ! counter2], counter1, counter2 + 1)
            else (new_list @ [xs ! counter1, ys ! counter2], counter1 + 1, counter2 + 1))"
    by (auto simp: merged_body_eq)
  show "merged cmp_standard [1, 3, 5] [2, 4, 6 :: int] = Some [1, 2, 3, 4, 5, 6]"
    by code_simp
qed

theorem merged_follows_spec_witness:
  "three_way (cmp_standard :: int comparator) \<and>
   merged cmp_standard [1, 3, 5] [2, 4, 6 :: int] = Some (merge_spec cmp_standard [1, 3, 5] [2, 4, 6]) \<and>
   length (merge_spec cmp_standard [1, 3, 5] [2, 4, 6 :: int]) = 6 \<and>
   merged_body cmp_standard [1, 3, 5] [2, 4, 6 :: int] ([], 0, 0) = ([1], 1, 0)"
proof -
  have tw: "three_way (cmp_standard :: int comparator)" by (rule three_way_cmp_standard)
  note inst = merged_follows_spec[OF tw, of "[1, 3, 5]" "[2, 4, 6]" "[]" 0 0]
  from inst have "merged_body cmp_standard [1, 3, 5] [2, 4, 6 :: int] ([], 0, 0) = ([1], 1, 0)"
    by (simp add: cmp_standard_def)
  moreover from inst have "length (merge_spec cmp_standard [1, 3, 5] [2, 4, 6 :: int]) = 6"
    by simp
  ultimately show ?thesis using tw inst by blast
qed

text \<open>
  C5, as stated, says \<^verbatim>\<open>merge_sorted\<close> keeps equivalent elements in their input order.
  On a tie \<^verbatim>\<open>_merged\<close> emits the left element, then the right one, and advances both
  cursors, so a second equivalent element waiting in the left half lands behind the right
  one: of four elements with the same first component, the third overtakes the second.
\<close>

theorem merge_sorted_reorders_equivalent:
  "merge_sorted by_first_component [(1, ''a''), (1, ''b''), (1, ''c''), (1, ''d'')] =
     Some [(1, ''a''), (1, ''c''), (1, ''b''), (1, ''d'')]"
  by code_simp

text \<open>
  C5, amended.  Under a comparator that keeps the contract, \<^verbatim>\<open>merge_sorted\<close> keeps
  equivalent elements in their input order whenever no more than two elements of the input
  are equivalent to one another; in particular \<open>[(1,"a"),(1,"b")]\<close>, compared by first
  component, comes out as \<open>[(1,"a"),(1,"b")]\<close>.
\<close>

theorem merge_sorted_stable_small_classes:
  assumes "contract cmp" and "\<forall>c. length (class_of cmp c xs) \<le> 2"
  shows "(\<exists>ys. merge_sorted cmp xs = Some ys \<and> (\<forall>c. class_of cmp c ys = class_of cmp c xs)) \<and>
         merge_sorted by_first_component [(1, ''a''), (1, ''b'')] = Some [(1, ''a''), (1, ''b'')]"
proof
  from merge_sorted_sorted_stable[OF assms(1), of xs] assms(2)
  show "\<exists>ys. merge_sorted cmp xs = Some ys \<and> (\<forall>c. class_of cmp c ys = class_of cmp c xs)"
    unfolding class_of_def by blast
  show "merge_sorted by_first_component [(1, ''a''), (1, ''b'')] = Some [(1, ''a''), (1, ''b'')]"
    by code_simp
qed

theorem merge_sorted_stable_small_classes_witness:
  "contract by_first_component \<and>
   (\<forall>c. length (class_of by_first_component c [(1, ''a''), (1, ''b'')]) \<le> 2) \<and>
   (\<exists>ys. merge_sorted by_first_component [(1, ''a''), (1, ''b'')] = Some ys \<and>
      (\<forall>c. class_of by_first_component c ys = class_of by_first_component c [(1, ''a''), (1, ''b'')]))"
proof -
  have small: "\<forall>c. length (class_of by_first_component c [(1, ''a''), (1, ''b'')]) \<le> 2"
    by (simp add: class_of_def)
  from merge_sorted_stable_small_classes[OF contract_by_first_component small]
    contract_by_first_component small
  show ?thesis by blast
qed

text \<open>
  C6, as stated, gives the extra element of an odd-length list to the left half.  The code
  takes \<^verbatim>\<open>xs2[:mid]\<close> with \<^verbatim>\<open>mid = len(xs2) // 2\<close> as the left half, so of three
  elements the left half gets one and the right half two.
\<close>

theorem extra_element_goes_right:
  "split_left [1, 2, 3 :: int] = [1] \<and> split_right [1, 2, 3 :: int] = [2, 3] \<and>
   length (split_left [1, 2, 3 :: int]) \<noteq> (length [1, 2, 3 :: int] + 1) div 2"
  by (simp add: split_left_def split_right_def)

text \<open>
  C6, amended.  For a list of length at least 2, \<^verbatim>\<open>merge_sorted\<close> splits it at
  \<open>len div 2\<close> into a first part of \<open>\<lfloor>n/2\<rfloor>\<close> elements and a second part of
  \<open>\<lceil>n/2\<rceil>\<close> elements (the right half receives the extra element when the length is
  odd), sorts the left part, then the right part, and merges the two results.
\<close>

theorem merge_sorted_splits_at_floor:
  assumes "2 \<le> length xs"
  shows "split_left xs @ split_right xs = xs \<and>
         length (split_left xs) = length xs div 2 \<and>
         length (split_right xs) = (length xs + 1) div 2 \<and>
         merge_sorted cmp xs =
           merge_sorted cmp (split_left xs) \<bind> (\<lambda>lmerge.
           merge_sorted cmp (split_right xs) \<bind> (\<lambda>rmerge.
           merged cmp lmerge rmerge))"
proof (intro conjI)
  show "split_left xs @ split_right xs = xs" by (rule split_left_right)
  show "length (split_left xs) = length xs div 2" by (simp add: split_left_def)
  show "length (split_right xs) = (length xs + 1) div 2"
    by (simp add: split_right_def)
  from assms have "\<not> length xs \<le> 1" by simp
  then show "merge_sorted cmp xs =
           merge_sorted cmp (split_left xs) \<bind> (\<lambda>lmerge.
           merge_sorted cmp (split_right xs) \<bind> (\<lambda>rmerge.
           merged cmp lmerge rmerge))"
    by (subst merge_sorted.simps) (simp split: option.splits)
qed

theorem merge_sorted_splits_at_floor_witness:
  "2 \<le> length [1, 2, 3 :: int] \<and>
   split_left [1, 2, 3 :: int] @ split_right [1, 2, 3] = [1, 2, 3] \<and>
   length (split_left [1, 2, 3 :: int]) = 1 \<and>
   length (split_right [1, 2, 3 :: int]) = 2 \<and>
   merge_sorted cmp_standard [1, 2, 3 :: int] =
     merge_sorted cmp_standard (split_left [1, 2, 3]) \<bind> (\<lambda>lmerge.
     merge_sorted cmp_standard (split_right [1, 2, 3]) \<bind> (\<lambda>rmerge.
     merged cmp_standard lmerge rmerge))"
proof -
  have len: "2 \<le> length [1, 2, 3 :: int]" by simp
  from merge_sorted_splits_at_floor[OF len, of cmp_standard] len show ?thesis by simp
qed

text \<open>
  C7, as stated, says every sort returns a sorted input as it is.  \<^verbatim>\<open>merge_sorted\<close>
  does not: four equivalent elements are a sorted list, and come out with the second and
  third exchanged.  Nor does \<^verbatim>\<open>quick_sort\<close>, whose partition stops after one pass:
  \<open>[1,2,3]\<close> becomes \<open>[1,3,2]\<close>.
\<close>

theorem sorted_input_not_returned:
  "sorted_by by_first_component [(1, ''a''), (1, ''b''), (1, ''c''), (1, ''d'')] \<and>
   merge_sorted by_first_component [(1, ''a''), (1, ''b''), (1, ''c''), (1, ''d'')] =
     Some [(1, ''a''), (1, ''c''), (1, ''b''), (1, ''d'')] \<and>
   sorted_by cmp_standard [1, 2, 3 :: int] \<and>
   quick_sort cmp_standard [1, 2, 3 :: int] = Inr [1, 3, 2]"
  by code_simp

text \<open>
  C7, amended.  Under a comparator that keeps the contract, and for a list sorted under it:
  \<^verbatim>\<open>quick_sorted\<close> returns the list itself, element for element, whatever pivots are
  drawn; \<^verbatim>\<open>merge_sorted\<close> returns a sorted list with the same multiset, and the list itself
  when no more than two of its elements are equivalent to one another.
\<close>

theorem sorted_input_kept:
  assumes ct: "contract cmp" and srt: "sorted_by cmp xs"
  shows "(\<forall>rnd k. \<exists>k'. quick_sorted rnd cmp xs k = Some (xs, k')) \<and>
         (\<exists>ys. merge_sorted cmp xs = Some ys \<and> mset ys = mset xs \<and> sorted_by cmp ys \<and>
            ((\<forall>c. length (class_of cmp c xs) \<le> 2) \<longrightarrow> ys = xs))"
proof (intro conjI allI)
  from srt have sx: "sorted_wrt (\<lambda>x y. cmp x y \<noteq> 1) xs"
    by (simp add: sorted_by_iff_sorted_wrt[OF ct])
  {
    fix rnd k
    from quick_sorted_contract[OF ct, of rnd xs k] obtain ys k' where
      q: "quick_sorted rnd cmp xs k = Some (ys, k')" "sorted_wrt (\<lambda>x y. cmp x y \<noteq> 1) ys"
         "\<And>c. filter (\<lambda>z. cmp z c = 0) ys = filter (\<lambda>z. cmp z c = 0) xs"
      by blast
    have "ys = xs" by (rule sorted_stable_unique[OF ct q(2) sx q(3)])
    with q(1) show "\<exists>k'. quick_sorted rnd cmp xs k = Some (xs, k')" by blast
  }
  from merge_sorted_sorted_stable[OF ct, of xs] obtain ys where
    m: "merge_sorted cmp xs = Some ys" "sorted_wrt (\<lambda>x y. cmp x y \<noteq> 1) ys"
       "\<And>c. length (filter (\<lambda>z. cmp z c = 0) xs) \<le> 2 \<Longrightarrow>
          filter (\<lambda>z. cmp z c = 0) ys = filter (\<lambda>z. cmp z c = 0) xs"
    by blast
  from merge_sorted_mset[OF contract_three_way[OF ct], of xs] m(1)
  have ms: "mset ys = mset xs" by simp
  have same: "ys = xs" if "\<forall>c. length (class_of cmp c xs) \<le> 2"
  proof (rule sorted_stable_unique[OF ct m(2) sx])
    fix c
    from that have "length (filter (\<lambda>z. cmp z c = 0) xs) \<le> 2"
      by (simp add: class_of_def)
    then show "filter (\<lambda>z. cmp z c = 0) ys = filter (\<lambda>z. cmp z c = 0) xs" by (rule m(3))
  qed
  from m(2) have "sorted_by cmp ys" by (simp add: sorted_by_iff_sorted_wrt[OF ct])
  with m(1) ms same
  show "\<exists>ys. merge_sorted cmp xs = Some ys \<and> mset ys = mset xs \<and> sorted_by cmp ys \<and>
            ((\<forall>c. length (class_of cmp c xs) \<le> 2) \<longrightarrow> ys = xs)"
    by blast
qed

theorem sorted_input_kept_witness:
  "contract by_first_component \<and>
   sorted_by by_first_component [(1, ''a''), (1, ''b''), (2, ''c'')] \<and>
   (\<forall>c. length (class_of by_first_component c [(1, ''a''), (1, ''b''), (2, ''c'')]) \<le> 2) \<and>
   (\<forall>rnd k. \<exists>k'. quick_sorted rnd by_first_component [(1, ''a''), (1, ''b''), (2, ''c'')] k =
      Some ([(1, ''a''), (1, ''b''), (2, ''c'')], k')) \<and>
   merge_sorted by_first_component [(1, ''a''), (1, ''b''), (2, ''c'')] =
      Some [(1, ''a''), (1, ''b''), (2, ''c'')]"
proof -
  let ?xs = "[(1 :: int, ''a''), (1, ''b''), (2, ''c'')]"
  have srt: "sorted_by by_first_component ?xs"
    by (simp add: by_first_component_def cmp_standard_def)
  have small: "\<forall>c. length (class_of by_first_component c ?xs) \<le> 2"
    by (simp add: class_of_def by_first_component_def cmp_standard_def)
  from sorted_input_kept[OF contract_by_first_component srt] small
  have "(\<forall>rnd k. \<exists>k'. quick_sorted rnd by_first_component ?xs k = Some (?xs, k'))"
    and "merge_sorted by_first_component ?xs = Some ?xs"
    by blast+
  with contract_by_first_component srt small show ?thesis by blast
qed

text \<open>
  C8.  In the store model, for any comparator and any list object \<open>xs\<close> of the store:
  when \<^verbatim>\<open>merge_sorted\<close> or \<^verbatim>\<open>quick_sorted\<close> returns, every object that existed before
  the call, the input among them, has its contents unchanged, and the returned reference is
  a new object, holding what the value model computes; the call returns exactly when the
  value model does.  \<^verbatim>\<open>quick_sort\<close> raises nothing, writes its result into the object
  \<open>xs\<close> itself, leaves every other object alone, and returns the reference \<open>xs\<close>.
\<close>

theorem copies_keep_input_in_place_writes_it:
  assumes xs: "xs < length h"
  shows
   "(\<forall>h' r. merge_sorted_h cmp h xs = Some (h', r) \<longrightarrow>
       extends h h' \<and> h' ! xs = h ! xs \<and> length h \<le> r \<and> r < length h' \<and>
       merge_sorted cmp (h ! xs) = Some (h' ! r)) \<and>
    (\<forall>out. merge_sorted cmp (h ! xs) = Some out \<longrightarrow>
       (\<exists>h' r. merge_sorted_h cmp h xs = Some (h', r))) \<and>
    (\<forall>rnd k h' r k'. quick_sorted_h rnd cmp h xs k = Some ((h', r), k') \<longrightarrow>
       extends h h' \<and> h' ! xs = h ! xs \<and> length h \<le> r \<and> r < length h' \<and>
       quick_sorted rnd cmp (h ! xs) k = Some (h' ! r, k')) \<and>
    (\<forall>rnd k out. quick_sorted rnd cmp (h ! xs) k = Some out \<longrightarrow>
       (\<exists>h' r k'. quick_sorted_h rnd cmp h xs k = Some ((h', r), k'))) \<and>
    (\<exists>zs. quick_sort cmp (h ! xs) = Inr zs \<and> quick_sort_h cmp h xs = Inr (h[xs := zs], xs))"
proof (intro conjI allI impI)
  fix h' r
  assume run: "merge_sorted_h cmp h xs = Some (h', r)"
  from merge_sorted_h_sound[OF run] xs
  have s: "extends h h'" "length h \<le> r" "r < length h'" "merge_sorted cmp (h ! xs) = Some (h' ! r)"
    by simp_all
  from s(1) show "extends h h'" .
  from extends_nth[OF s(1) xs] show "h' ! xs = h ! xs" .
  from s(2) show "length h \<le> r" .
  from s(3) show "r < length h'" .
  from s(4) show "merge_sorted cmp (h ! xs) = Some (h' ! r)" .
next
  fix out
  assume "merge_sorted cmp (h ! xs) = Some out"
  from merge_sorted_h_complete[OF this xs refl]
  show "\<exists>h' r. merge_sorted_h cmp h xs = Some (h', r)" by auto
next
  fix rnd k h' r k'
  assume run: "quick_sorted_h rnd cmp h xs k = Some ((h', r), k')"
  from quick_sorted_h_sound[OF run] xs
  have s: "extends h h'" "length h \<le> r" "r < length h'"
    "quick_sorted rnd cmp (h ! xs) k = Some (h' ! r, k')"
    by simp_all
  from s(1) show "extends h h'" .
  from extends_nth[OF s(1) xs] show "h' ! xs = h ! xs" .
  from s(2) show "length h \<le> r" .
  from s(3) show "r < length h'" .
  from s(4) show "quick_sorted rnd cmp (h ! xs) k = Some (h' ! r, k')" .
next
  fix rnd k out
  assume "quick_sorted rnd cmp (h ! xs) k = Some out"
  from quick_sorted_h_complete[OF this, rule_format, of xs h] xs
  show "\<exists>h' r k'. quick_sorted_h rnd cmp h xs k = Some ((h', r), k')" by auto
next
  from quick_sort_ok[of cmp "h ! xs"] obtain zs where "quick_sort cmp (h ! xs) = Inr zs"
    by blast
  then show "\<exists>zs. quick_sort cmp (h ! xs) = Inr zs \<and> quick_sort_h cmp h xs = Inr (h[xs := zs], xs)"
    by (simp add: quick_sort_h_eq[OF xs])
qed

theorem copies_keep_input_in_place_writes_it_witness:
  "0 < length [[5, 3, 1, 4, 2 :: int]] \<and>
   (\<exists>h' r. merge_sorted_h cmp_standard [[5, 3, 1, 4, 2 :: int]] 0 = Some (h', r) \<and>
      extends [[5, 3, 1, 4, 2]] h' \<and> h' ! 0 = [5, 3, 1, 4, 2] \<and> 1 \<le> r \<and> r < length h' \<and>
      h' ! r = [1, 2, 3, 4, 5]) \<and>
   (\<exists>h' r k'. quick_sorted_h first_index cmp_standard [[5, 3, 1, 4, 2 :: int]] 0 0 = Some ((h', r), k') \<and>
      extends [[5, 3, 1, 4, 2]] h' \<and> h' ! 0 = [5, 3, 1, 4, 2] \<and> 1 \<le> r \<and> r < length h' \<and>
      h' ! r = [1, 2, 3, 4, 5]) \<and>
   quick_sort_h cmp_standard [[5, 3, 1, 4, 2 :: int]] 0 = Inr ([[2, 3, 5, 1, 4]], 0)"
proof -
  let ?h = "[[5, 3, 1, 4, 2 :: int]]"
  have len: "0 < length ?h" by simp
  note inst = copies_keep_input_in_place_writes_it[OF len, of cmp_standard]
  have pm: "merge_sorted cmp_standard (?h ! 0) = Some [1, 2, 3, 4, 5]" by code_simp
  have pq: "quick_sorted first_index cmp_standard (?h ! 0) 0 = Some ([1, 2, 3, 4, 5], 3)"
    by code_simp
  have pi: "quick_sort cmp_standard (?h ! 0) = Inr [2, 3, 5, 1, 4]" by code_simp
  from inst pm obtain h1 r1 where m: "merge_sorted_h cmp_standard ?h 0 = Some (h1, r1)"
    by blast
  with inst have m': "extends ?h h1 \<and> h1 ! 0 = ?h ! 0 \<and> length ?h \<le> r1 \<and> r1 < length h1 \<and>
      merge_sorted cmp_standard (?h ! 0) = Some (h1 ! r1)"
    by blast
  from inst pq obtain h2 r2 k2 where
    q: "quick_sorted_h first_index cmp_standard ?h 0 0 = Some ((h2, r2), k2)"
    by blast
  with inst have q': "extends ?h h2 \<and> h2 ! 0 = ?h ! 0 \<and> length ?h \<le> r2 \<and> r2 < length h2 \<and>
      quick_sorted first_index cmp_standard (?h ! 0) 0 = Some (h2 ! r2, k2)"
    by blast
  from inst pi have i: "quick_sort_h cmp_standard ?h 0 = Inr (?h[0 := [2, 3, 5, 1, 4]], 0)"
    by auto
  from m m' pm have a: "\<exists>h' r. merge_sorted_h cmp_standard ?h 0 = Some (h', r) \<and>
      extends ?h h' \<and> h' ! 0 = [5, 3, 1, 4, 2] \<and> 1 \<le> r \<and> r < length h' \<and>
      h' ! r = [1, 2, 3, 4, 5]"
    by auto
  from q q' pq have b: "\<exists>h' r k'. quick_sorted_h first_index cmp_standard ?h 0 0 = Some ((h', r), k') \<and>
      extends ?h h' \<and> h' ! 0 = [5, 3, 1, 4, 2] \<and> 1 \<le> r \<and> r < length h' \<and>
      h' ! r = [1, 2, 3, 4, 5]"
    by auto
  from i have c: "quick_sort_h cmp_standard ?h 0 = Inr ([[2, 3, 5, 1, 4]], 0)" by simp
  from len a b c show ?thesis by blast
qed

text \<open>
  C9, as stated, says \<^verbatim>\<open>quick_sorted\<close> returns what \<^verbatim>\<open>merge_sorted\<close> returns.  On four
  equivalent elements \<^verbatim>\<open>quick_sorted\<close> returns them in input order and
  \<^verbatim>\<open>merge_sorted\<close> does not.
\<close>

theorem quick_sorted_differs_from_merge_sorted:
  "merge_sorted by_first_component [(1, ''a''), (1, ''b''), (1, ''c''), (1, ''d'')] =
     Some [(1, ''a''), (1, ''c''), (1, ''b''), (1, ''d'')] \<and>
   quick_sorted first_index by_first_component [(1, ''a''), (1, ''b''), (1, ''c''), (1, ''d'')] 0 =
     Some ([(1, ''a''), (1, ''b''), (1, ''c''), (1, ''d'')], 1)"
  by code_simp

text \<open>
  C9, amended.  Under a comparator that keeps the contract there is one list that
  \<^verbatim>\<open>quick_sorted\<close> returns for every sequence of pivots; it is sorted, has the multiset of
  the input, and keeps equivalent elements in their input order; and it is the output of
  \<^verbatim>\<open>merge_sorted\<close> whenever no more than two elements of the input are equivalent to
  one another.
\<close>

theorem quick_sorted_stable_whatever_pivot:
  assumes ct: "contract cmp"
  shows "\<exists>ys. (\<forall>rnd k. \<exists>k'. quick_sorted rnd cmp xs k = Some (ys, k')) \<and>
           sorted_by cmp ys \<and> mset ys = mset xs \<and>
           (\<forall>c. class_of cmp c ys = class_of cmp c xs) \<and>
           ((\<forall>c. length (class_of cmp c xs) \<le> 2) \<longrightarrow> merge_sorted cmp xs = Some ys)"
proof -
  from quick_sorted_contract[OF ct, of first_index xs 0] obtain ys k0 where
    q: "quick_sorted first_index cmp xs 0 = Some (ys, k0)" "mset ys = mset xs"
       "sorted_wrt (\<lambda>x y. cmp x y \<noteq> 1) ys"
       "\<And>c. filter (\<lambda>z. cmp z c = 0) ys = filter (\<lambda>z. cmp z c = 0) xs"
    by blast
  have every: "\<exists>k'. quick_sorted rnd cmp xs k = Some (ys, k')" for rnd k
  proof -
    from quick_sorted_contract[OF ct, of rnd xs k] obtain zs k' where
      z: "quick_sorted rnd cmp xs k = Some (zs, k')" "sorted_wrt (\<lambda>x y. cmp x y \<noteq> 1) zs"
         "\<And>c. filter (\<lambda>z. cmp z c = 0) zs = filter (\<lambda>z. cmp z c = 0) xs"
      by blast
    have "zs = ys"
      by (rule sorted_stable_unique[OF ct z(2) q(3)]) (simp only: z(3) q(4))
    with z(1) show ?thesis by blast
  qed
  have merge: "merge_sorted cmp xs = Some ys" if "\<forall>c. length (class_of cmp c xs) \<le> 2"
  proof -
    from merge_sorted_sorted_stable[OF ct, of xs] obtain zs where
      m: "merge_sorted cmp xs = Some zs" "sorted_wrt (\<lambda>x y. cmp x y \<noteq> 1) zs"
         "\<And>c. length (filter (\<lambda>z. cmp z c = 0) xs) \<le> 2 \<Longrightarrow>
            filter (\<lambda>z. cmp z c = 0) zs = filter (\<lambda>z. cmp z c = 0) xs"
      by blast
    have "zs = ys"
    proof (rule sorted_stable_unique[OF ct m(2) q(3)])
      fix c
      from that have "length (filter (\<lambda>z. cmp z c = 0) xs) \<le> 2"
        by (simp add: class_of_def)
      from m(3)[OF this] show "filter (\<lambda>z. cmp z c = 0) zs = filter (\<lambda>z. cmp z c = 0) ys"
        by (simp only: q(4))
    qed
    with m(1) show ?thesis by simp
  qed
  from q(3) have "sorted_by cmp ys" by (simp add: sorted_by_iff_sorted_wrt[OF ct])
  moreover have "\<forall>c. class_of cmp c ys = class_of cmp c xs"
    by (simp add: class_of_def q(4))
  ultimately show ?thesis using every q(2) merge by blast
qed

theorem quick_sorted_stable_whatever_pivot_witness:
  "contract by_first_component \<and>
   (\<forall>c. length (class_of by_first_component c [(2, ''c''), (1, ''a''), (1, ''b'')]) \<le> 2) \<and>
   (\<exists>ys. (\<forall>rnd k. \<exists>k'. quick_sorted rnd by_first_component [(2, ''c''), (1, ''a''), (1, ''b'')] k =
              Some (ys, k')) \<and>
      sorted_by by_first_component ys \<and> mset ys = mset [(2, ''c''), (1, ''a''), (1, ''b'')] \<and>
      (\<forall>c. class_of by_first_component c ys =
            class_of by_first_component c [(2, ''c''), (1, ''a''), (1, ''b'')]) \<and>
      merge_sorted by_first_component [(2, ''c''), (1, ''a''), (1, ''b'')] = Some ys)"
proof -
  let ?xs = "[(2 :: int, ''c''), (1, ''a''), (1, ''b'')]"
  have small: "\<forall>c. length (class_of by_first_component c ?xs) \<le> 2"
    by (simp add: class_of_def by_first_component_def cmp_standard_def)
  from quick_sorted_stable_whatever_pivot[OF contract_by_first_component, of ?xs] small
    contract_by_first_component
  show ?thesis by blast
qed

text \<open>
  C10.  When the comparator only returns \<open>-1\<close>, \<open>0\<close> or \<open>1\<close>, \<^verbatim>\<open>_merged\<close> returns on
  every two lists, and so does \<^verbatim>\<open>merge_sorted\<close>.  When it returns anything else for the
  pair under the cursors, with both cursors in range, the loop body changes nothing and the
  loop never ends; so \<^verbatim>\<open>_merged\<close> does not return once its loop reaches such a pair.
\<close>

theorem merged_returns_iff_in_range:
  "(three_way cmp \<longrightarrow>
      (\<exists>zs. merged cmp xs ys = Some zs) \<and> (\<exists>zs. merge_sorted cmp xs = Some zs)) \<and>
   (counter1 < length xs \<and> counter2 < length ys \<and>
    cmp (xs ! counter1) (ys ! counter2) \<noteq> -1 \<and> cmp (xs ! counter1) (ys ! counter2) \<noteq> 0 \<and>
    cmp (xs ! counter1) (ys ! counter2) \<noteq> 1 \<longrightarrow>
      merged_body cmp xs ys (new_list, counter1, counter2) = (new_list, counter1, counter2) \<and>
      merged_loop cmp xs ys (new_list, counter1, counter2) = None) \<and>
   ((\<forall>i<n. in_loop xs ys (after_passes cmp xs ys i)) \<and>
    after_passes cmp xs ys n = (new_list, counter1, counter2) \<and>
    counter1 < length xs \<and> counter2 < length ys \<and>
    cmp (xs ! counter1) (ys ! counter2) \<noteq> -1 \<and> cmp (xs ! counter1) (ys ! counter2) \<noteq> 0 \<and>
    cmp (xs ! counter1) (ys ! counter2) \<noteq> 1 \<longrightarrow> merged cmp xs ys = None)"
proof (intro conjI impI)
  assume tw: "three_way cmp"
  show "\<exists>zs. merged cmp xs ys = Some zs" by (simp add: merged_eq_spec[OF tw])
  show "\<exists>zs. merge_sorted cmp xs = Some zs" using merge_sorted_mset[OF tw, of xs] by blast
next
  assume bad: "counter1 < length xs \<and> counter2 < length ys \<and>
    cmp (xs ! counter1) (ys ! counter2) \<noteq> -1 \<and> cmp (xs ! counter1) (ys ! counter2) \<noteq> 0 \<and>
    cmp (xs ! counter1) (ys ! counter2) \<noteq> 1"
  then show same: "merged_body cmp xs ys (new_list, counter1, counter2) = (new_list, counter1, counter2)"
    by (simp add: merged_body_eq)
  from bad show "merged_loop cmp xs ys (new_list, counter1, counter2) = None"
    by (intro merged_loop_stuck_None same) simp_all
next
  assume bad: "(\<forall>i<n. in_loop xs ys (after_passes cmp xs ys i)) \<and>
    after_passes cmp xs ys n = (new_list, counter1, counter2) \<and>
    counter1 < length xs \<and> counter2 < length ys \<and>
    cmp (xs ! counter1) (ys ! counter2) \<noteq> -1 \<and> cmp (xs ! counter1) (ys ! counter2) \<noteq> 0 \<and>
    cmp (xs ! counter1) (ys ! counter2) \<noteq> 1"
  then have "\<forall>i<n. in_loop xs ys ((merged_body cmp xs ys ^^ i) ([], 0, 0))"
    and reach: "(merged_body cmp xs ys ^^ n) ([], 0, 0) = (new_list, counter1, counter2)"
    by (simp_all add: after_passes_def)
  from merged_loop_passes[OF this(1)] reach
  have "merged_loop cmp xs ys ([], 0, 0) = merged_loop cmp xs ys (new_list, counter1, counter2)"
    by simp
  also from bad have "merged_body cmp xs ys (new_list, counter1, counter2) = (new_list, counter1, counter2)"
    by (simp add: merged_body_eq)
  with bad have "merged_loop cmp xs ys (new_list, counter1, counter2) = None"
    by (intro merged_loop_stuck_None) simp_all
  finally show "merged cmp xs ys = None" by (simp add: merged_def)
qed

theorem merged_returns_iff_in_range_witness:
  "three_way (cmp_standard :: int comparator) \<and>
   (\<exists>zs. merged cmp_standard [1, 3, 5] [2, 4, 6 :: int] = Some zs) \<and>
   (\<exists>zs. merge_sorted cmp_standard [1, 3, 5 :: int] = Some zs) \<and>
   always_two 1 2 = 2 \<and>
   merged_body always_two [1] [2] ([], 0, 0) = ([], 0, 0) \<and>
   merged_loop always_two [1] [2] ([], 0, 0) = None \<and>
   in_loop [1, 3, 5] [2, 4, 6] (after_passes two_at_3_4 [1, 3, 5] [2, 4, 6] 0) \<and>
   in_loop [1, 3, 5] [2, 4, 6] (after_passes two_at_3_4 [1, 3, 5] [2, 4, 6] 1) \<and>
   after_passes two_at_3_4 [1, 3, 5] [2, 4, 6] 2 = ([1, 2], 1, 1) \<and>
   two_at_3_4 ([1, 3, 5] ! 1) ([2, 4, 6] ! 1) = 2 \<and>
   merged two_at_3_4 [1, 3, 5] [2, 4, 6] = None"
proof -
  have tw: "three_way (cmp_standard :: int comparator)" by (rule three_way_cmp_standard)
  from merged_returns_iff_in_range[of cmp_standard "[1, 3, 5]" "[2, 4, 6]" 0 0 "[]" 0] tw
  have a: "(\<exists>zs. merged cmp_standard [1, 3, 5] [2, 4, 6 :: int] = Some zs) \<and>
           (\<exists>zs. merge_sorted cmp_standard [1, 3, 5 :: int] = Some zs)"
    by blast
  have two: "always_two 1 2 = 2" by (simp add: always_two_def)
  from merged_returns_iff_in_range[of always_two "[1]" "[2]" 0 0 "[]" 0]
  have b: "merged_body always_two [1] [2] ([], 0, 0) = ([], 0, 0) \<and>
           merged_loop always_two [1] [2] ([], 0, 0) = None"
    by (simp add: always_two_def)
  have p0: "after_passes two_at_3_4 [1, 3, 5] [2, 4, 6] 0 = ([], 0, 0)"
    by (simp add: after_passes_def)
  have p1: "after_passes two_at_3_4 [1, 3, 5] [2, 4, 6] (Suc 0) = ([1], 1, 0)"
    by (simp add: after_passes_def merged_body_eq two_at_3_4_def cmp_standard_def)
  have p2: "after_passes two_at_3_4 [1, 3, 5] [2, 4, 6] 2 = ([1, 2], 1, 1)"
    by (simp add: after_passes_def numeral_2_eq_2 merged_body_eq two_at_3_4_def cmp_standard_def)
  have l0: "in_loop [1, 3, 5] [2, 4, 6 :: int] (after_passes two_at_3_4 [1, 3, 5] [2, 4, 6] 0)"
    by (simp add: p0 in_loop_def)
  have l1: "in_loop [1, 3, 5] [2, 4, 6 :: int] (after_passes two_at_3_4 [1, 3, 5] [2, 4, 6] 1)"
    by (simp add: p1 in_loop_def)
  have all: "\<forall>i<2. in_loop [1, 3, 5] [2, 4, 6 :: int] (after_passes two_at_3_4 [1, 3, 5] [2, 4, 6] i)"
    using l0 l1 by (simp add: less_2_cases_iff)
  have v: "two_at_3_4 ([1, 3, 5] ! 1) ([2, 4, 6] ! 1) = 2" by (simp add: two_at_3_4_def)
  from merged_returns_iff_in_range[of two_at_3_4 "[1, 3, 5]" "[2, 4, 6]" 1 1 "[1, 2]" 2] all p2 v
  have c: "merged two_at_3_4 [1, 3, 5] [2, 4, 6] = None"
    by simp
  from tw a two b l0 l1 p2 v c show ?thesis by blast
qed


end
